theory Spec2Isabelle
  imports Main "HOL-Library.Sublist"
begin

section \<open>Strings\<close>

text \<open>
  The migration engine of \<^verbatim>\<open>src/server/db/migrations.js\<close> (class
  \<^verbatim>\<open>DatabaseMigrations\<close>; the second copy of the class, with four migrations, has the
  same engine). A JavaScript string is modelled as a \<^typ>\<open>string\<close>, each \<^typ>\<open>char\<close>
  standing for the code unit of the same number (U+0000 to U+00FF). The string methods the
  engine calls are modelled on that range.
\<close>

definition newline :: char where
  "newline = CHR 0x0A"

text \<open>
  \<^verbatim>\<open>String.prototype.trim\<close> removes white space and line terminators from both ends. In
  the range of \<^typ>\<open>char\<close> these are tab, line feed, vertical tab, form feed, carriage
  return, space and the no-break space.
\<close>

definition isWhiteSpace :: "char \<Rightarrow> bool" where
  "isWhiteSpace c =
     (c = CHR 0x09 \<or> c = CHR 0x0A \<or> c = CHR 0x0B \<or> c = CHR 0x0C \<or> c = CHR 0x0D \<or>
      c = CHR 0x20 \<or> c = CHR 0xA0)"

definition trimStart :: "string \<Rightarrow> string" where
  "trimStart s = dropWhile isWhiteSpace s"

definition trimEnd :: "string \<Rightarrow> string" where
  "trimEnd s = rev (dropWhile isWhiteSpace (rev s))"

definition trim :: "string \<Rightarrow> string" where
  "trim s = trimEnd (trimStart s)"

text \<open>
  \<^verbatim>\<open>toUpperCase\<close> is modelled on the letters a to z; the other characters are left as
  they are. The engine only compares the result with the keywords \<^verbatim>\<open>CREATE TRIGGER\<close> and
  \<^verbatim>\<open>END;\<close>, and no character of the modelled range outside a to z is mapped to a letter
  of these keywords.
\<close>

definition upperChar :: "char \<Rightarrow> char" where
  "upperChar c =
     (case map_of (zip ''abcdefghijklmnopqrstuvwxyz'' ''ABCDEFGHIJKLMNOPQRSTUVWXYZ'') c of
        None \<Rightarrow> c
      | Some u \<Rightarrow> u)"

definition toUpperCase :: "string \<Rightarrow> string" where
  "toUpperCase s = map upperChar s"

definition startsWith :: "string \<Rightarrow> string \<Rightarrow> bool" where
  "startsWith s p = prefix p s"

definition endsWith :: "string \<Rightarrow> string \<Rightarrow> bool" where
  "endsWith s p = suffix p s"

definition includes_str :: "string \<Rightarrow> string \<Rightarrow> bool" where
  "includes_str s p = sublist p s"

text \<open>
  \<^verbatim>\<open>sql.split('\n')\<close>: the pieces between the line feeds, in order. The result is never
  empty: a text without line feed is its own single piece, and a text that ends in a line
  feed has an empty last piece. A character other than the line feed goes in front of the
  first piece of the rest (the rest always has one, see \<open>split_nl_not_Nil\<close>).
\<close>

fun split_nl :: "string \<Rightarrow> string list" where
  "split_nl [] = [[]]"
| "split_nl (c # cs) =
     (if c = newline then [] # split_nl cs
      else (case split_nl cs of
              piece # pieces \<Rightarrow> (c # piece) # pieces
            | [] \<Rightarrow> [[c]]))"

section \<open>The statement splitter\<close>

text \<open>
  \<^verbatim>\<open>parseSQL(sql)\<close> keeps three variables over its loop: the statements pushed so far,
  the buffer \<^verbatim>\<open>currentStatement\<close>, and the flag \<^verbatim>\<open>inTrigger\<close>.
\<close>

record parse_state =
  statements :: "string list"
  currentStatement :: string
  inTrigger :: bool

definition parse_init :: parse_state where
  "parse_init = \<lparr>statements = [], currentStatement = [], inTrigger = False\<rparr>"

text \<open>
  One pass of the loop body, for one line. A line that is empty after trimming is skipped
  (\<^verbatim>\<open>continue\<close>). Otherwise the flag is set when the trimmed line, in upper case, starts
  with \<^verbatim>\<open>CREATE TRIGGER\<close>; the line and a line feed are appended to the buffer; and when
  the trimmed line ends with a semicolon, the trimmed buffer is pushed either if the flag is
  set and the line in upper case includes \<^verbatim>\<open>END;\<close> (the flag is cleared), or if the flag
  is clear.
\<close>

definition parse_line :: "parse_state \<Rightarrow> string \<Rightarrow> parse_state" where
  "parse_line st line =
     (let trimmedLine = trim line in
      if trimmedLine = [] then st
      else
        let inT = (if startsWith (toUpperCase trimmedLine) ''CREATE TRIGGER'' then True
                   else inTrigger st);
            cur = currentStatement st @ line @ [newline]
        in
          if endsWith trimmedLine '';'' then
            (if inT \<and> includes_str (toUpperCase trimmedLine) ''END;'' then
               \<lparr>statements = statements st @ [trim cur], currentStatement = [],
                inTrigger = False\<rparr>
             else if \<not> inT then
               \<lparr>statements = statements st @ [trim cur], currentStatement = [],
                inTrigger = inT\<rparr>
             else
               \<lparr>statements = statements st, currentStatement = cur, inTrigger = inT\<rparr>)
          else
            \<lparr>statements = statements st, currentStatement = cur, inTrigger = inT\<rparr>)"

text \<open>
  The whole function: the loop over the lines, then the push of a remaining buffer that is
  not empty after trimming.
\<close>

definition parse_lines :: "parse_state \<Rightarrow> string list \<Rightarrow> parse_state" where
  "parse_lines st ls = foldl parse_line st ls"

definition parse_finish :: "parse_state \<Rightarrow> string list" where
  "parse_finish st =
     (if trim (currentStatement st) \<noteq> [] then statements st @ [trim (currentStatement st)]
      else statements st)"

definition parseSQL :: "string \<Rightarrow> string list" where
  "parseSQL sql = parse_finish (parse_lines parse_init (split_nl sql))"

text \<open>
  Names for the tests of the loop body and for what the buffer holds, used to state the
  properties of the splitter: a line is blank when it is empty after trimming; it opens a
  trigger or closes one when the tests of the loop body say so; and the buffer, after the
  lines \<open>ls\<close> were appended to it, holds each of them followed by a line feed.
\<close>

definition isBlank :: "string \<Rightarrow> bool" where
  "isBlank line = (trim line = [])"

definition opensTrigger :: "string \<Rightarrow> bool" where
  "opensTrigger line = startsWith (toUpperCase (trim line)) ''CREATE TRIGGER''"

definition closesTrigger :: "string \<Rightarrow> bool" where
  "closesTrigger line =
     (endsWith (trim line) '';'' \<and> includes_str (toUpperCase (trim line)) ''END;'')"

definition buffered :: "string list \<Rightarrow> string" where
  "buffered ls = concat (map (\<lambda>line. line @ [newline]) ls)"

definition nonBlankLines :: "string list \<Rightarrow> string list" where
  "nonBlankLines ls = filter (\<lambda>line. \<not> isBlank line) ls"

text \<open>The lines of a returned statement, each trimmed.\<close>

definition trimmedLines :: "string \<Rightarrow> string list" where
  "trimmedLines s = map trim (split_nl s)"

section \<open>Numbers\<close>

text \<open>
  A JavaScript number is a double. It holds an integer exactly up to
  \<open>2\<^sup>5\<^sup>3 = 9007199254740992\<close> in absolute value; a greater integer is rounded to the
  nearest double, which is a multiple of the unit in the last place of its size (twice the
  unit of the integers half as great), the even multiple in a tie. The engine meets the
  rounding in two places: the versions of the registry are written in the source as integer
  literals, and the library hands the 64-bit integer that SQLite computes for
  \<^verbatim>\<open>MAX(version)\<close> to JavaScript as a number. (Integers too great for a double or for
  a column of SQLite, beyond 64 bits, are rounded in the same way here; no property below
  is about them.)
\<close>

function ulp :: "int \<Rightarrow> int" where
  "ulp a = (if a < 9007199254740992 then 1 else 2 * ulp (a div 2))"
  by pat_completeness auto
termination
  by (relation "measure nat") auto

definition round_to :: "int \<Rightarrow> int \<Rightarrow> int" where
  "round_to u a =
     (let q = a div u; r = a mod u
      in if 2 * r < u \<or> (2 * r = u \<and> even q) then q * u else (q + 1) * u)"

definition double_of :: "int \<Rightarrow> int" where
  "double_of a = round_to (ulp a) a"

definition js_number :: "int \<Rightarrow> int" where
  "js_number v = (if v < 0 then - double_of (- v) else double_of v)"

section \<open>The database\<close>

text \<open>
  The engine works on a \<^verbatim>\<open>better-sqlite3\<close> connection. Its state is modelled by what
  the engine reads and writes: the connection setting \<^verbatim>\<open>foreign_keys\<close>, the bookkeeping
  table \<^verbatim>\<open>migrations\<close> (absent, or its rows in insertion order, each with its
  \<^verbatim>\<open>version\<close> and \<^verbatim>\<open>name\<close>; the columns \<^verbatim>\<open>id\<close> and \<^verbatim>\<open>executed_at\<close> are
  filled by the database and read by no code of the engine), and the rest of the database,
  of any type \<open>'s\<close>. The library is not part of the repository: each of its calls is
  modelled by what its documentation says of it, on this state. A commit that fails is not
  modelled.
\<close>

datatype error = SqliteError string | Thrown string

record 's database =
  foreign_keys :: bool
  migrations_table :: "(int \<times> string) list option"
  schema :: 's

text \<open>
  A call that works on the connection and may throw: it returns the error thrown, if any,
  and the state it leaves. A call that throws after part of its work leaves that part in
  the state.
\<close>

type_synonym 's action = "'s database \<Rightarrow> error option \<times> 's database"

text \<open>\<^verbatim>\<open>this.db.pragma('foreign_keys = ON')\<close>\<close>

definition pragma_foreign_keys_on :: "'s database \<Rightarrow> 's database" where
  "pragma_foreign_keys_on d = d\<lparr>foreign_keys := True\<rparr>"

text \<open>\<^verbatim>\<open>initMigrationsTable()\<close>: \<^verbatim>\<open>CREATE TABLE IF NOT EXISTS migrations (...)\<close>\<close>

definition initMigrationsTable :: "'s database \<Rightarrow> 's database" where
  "initMigrationsTable d =
     (case migrations_table d of
        None \<Rightarrow> d\<lparr>migrations_table := Some []\<rparr>
      | Some rows \<Rightarrow> d)"

text \<open>
  \<^verbatim>\<open>SELECT MAX(version) as version FROM migrations\<close>: the statement cannot be prepared
  when the table is absent; the aggregate of no row is \<^verbatim>\<open>NULL\<close>; the aggregate of
  some rows is their greatest version, which JavaScript receives as a number.
\<close>

fun sql_max :: "int list \<Rightarrow> int option" where
  "sql_max [] = None"
| "sql_max (v # vs) = (case sql_max vs of None \<Rightarrow> Some v | Some w \<Rightarrow> Some (max v w))"

definition select_max_version :: "'s database \<Rightarrow> error + int option" where
  "select_max_version d =
     (case migrations_table d of
        None \<Rightarrow> Inl (SqliteError ''no such table: migrations'')
      | Some rows \<Rightarrow> Inr (map_option js_number (sql_max (map fst rows))))"

text \<open>
  \<^verbatim>\<open>getCurrentVersion()\<close>: \<^verbatim>\<open>result.version || 0\<close> inside \<^verbatim>\<open>try\<close>, and
  \<^verbatim>\<open>return 0\<close> in the \<^verbatim>\<open>catch\<close>. The operator \<^verbatim>\<open>||\<close> gives its right operand for
  \<^verbatim>\<open>null\<close> and for the number zero.
\<close>

definition getCurrentVersion :: "'s database \<Rightarrow> int" where
  "getCurrentVersion d =
     (case select_max_version d of
        Inl error \<Rightarrow> 0
      | Inr result \<Rightarrow>
          (case result of
             None \<Rightarrow> 0
           | Some version \<Rightarrow> if version = 0 then 0 else version))"

text \<open>
  \<^verbatim>\<open>INSERT INTO migrations (version, name) VALUES (?, ?)\<close>: the table must exist, and the
  column \<^verbatim>\<open>version\<close> is declared \<^verbatim>\<open>UNIQUE\<close>.
\<close>

definition insert_migration :: "int \<Rightarrow> string \<Rightarrow> 's action" where
  "insert_migration v n d =
     (case migrations_table d of
        None \<Rightarrow> (Some (SqliteError ''no such table: migrations''), d)
      | Some rows \<Rightarrow>
          if v \<in> set (map fst rows)
          then (Some (SqliteError ''UNIQUE constraint failed: migrations.version''), d)
          else (None, d\<lparr>migrations_table := Some (rows @ [(v, n)])\<rparr>))"

section \<open>The migration runner\<close>

text \<open>
  An entry of \<^verbatim>\<open>this.migrations\<close>. The field \<open>version\<close> is the integer written in the
  source; \<open>versionNumber\<close> is the number that \<^verbatim>\<open>migration.version\<close> evaluates to, which
  is the same integer up to \<open>2\<^sup>5\<^sup>3\<close>.
\<close>

record 's migration =
  version :: int
  name :: string
  up :: "'s action"

definition versionNumber :: "'s migration \<Rightarrow> int" where
  "versionNumber m = js_number (version m)"

text \<open>
  What a run does to the connection, in order: a transaction is opened, the action of a
  migration is invoked, the bookkeeping statement of a migration is run, a transaction is
  committed or rolled back. A migration is named by its \<open>version\<close>.
\<close>

datatype event = Begin | Invoke int | Insert int | Commit | Rollback

type_synonym 's run = "error option \<times> 's database \<times> event list"

text \<open>
  The function passed to \<^verbatim>\<open>this.db.transaction\<close>: \<^verbatim>\<open>migration.up()\<close>, then the
  insert into the bookkeeping table.
\<close>

definition migration_body :: "'s migration \<Rightarrow> 's database \<Rightarrow> 's run" where
  "migration_body m d =
     (case up m d of
        (Some e, d') \<Rightarrow> (Some e, d', [Invoke (version m)])
      | (None, d') \<Rightarrow>
          (case insert_migration (versionNumber m) (name m) d' of
             (r, d'') \<Rightarrow> (r, d'', [Invoke (version m), Insert (version m)])))"

text \<open>
  \<^verbatim>\<open>this.db.transaction(fn)()\<close>: the function runs between \<^verbatim>\<open>BEGIN\<close> and
  \<^verbatim>\<open>COMMIT\<close>; when it throws, the transaction is rolled back, which puts the database
  back as it was at \<^verbatim>\<open>BEGIN\<close>, and the error is thrown again.
\<close>

definition transaction :: "('s database \<Rightarrow> 's run) \<Rightarrow> 's database \<Rightarrow> 's run" where
  "transaction fn d =
     (case fn d of
        (None, d', evs) \<Rightarrow> (None, d', [Begin] @ evs @ [Commit])
      | (Some e, d', evs) \<Rightarrow> (Some e, d, [Begin] @ evs @ [Rollback]))"

text \<open>
  The loop \<^verbatim>\<open>for (const migration of pendingMigrations)\<close>: the \<^verbatim>\<open>catch\<close> logs and
  throws the error again, which ends the loop.
\<close>

fun run_pending :: "'s migration list \<Rightarrow> 's database \<Rightarrow> 's run" where
  "run_pending [] d = (None, d, [])"
| "run_pending (m # ms) d =
     (case transaction (migration_body m) d of
        (Some e, d', evs) \<Rightarrow> (Some e, d', evs)
      | (None, d', evs) \<Rightarrow>
          (case run_pending ms d' of (r, d'', evs') \<Rightarrow> (r, d'', evs @ evs')))"

text \<open>\<^verbatim>\<open>this.migrations.filter(m => m.version > currentVersion)\<close>\<close>

definition pendingMigrations :: "'s migration list \<Rightarrow> int \<Rightarrow> 's migration list" where
  "pendingMigrations migrations currentVersion =
     filter (\<lambda>m. versionNumber m > currentVersion) migrations"

text \<open>\<^verbatim>\<open>runMigrations()\<close>, with \<^verbatim>\<open>this.migrations\<close> and the connection as arguments.\<close>

definition runMigrations :: "'s migration list \<Rightarrow> 's database \<Rightarrow> 's run" where
  "runMigrations migrations d =
     (let d1 = pragma_foreign_keys_on d;
          d2 = initMigrationsTable d1;
          currentVersion = getCurrentVersion d2;
          pending = pendingMigrations migrations currentVersion
      in if length pending = 0 then (None, d2, [])
         else run_pending pending d2)"

section \<open>The migrations with an \<^verbatim>\<open>ALTER TABLE ... ADD COLUMN\<close> step\<close>

text \<open>
  The second copy of the class registers four migrations; two of them add a column:
  \<^verbatim>\<open>migration_002_add_notification_system\<close> and
  \<^verbatim>\<open>migration_004_add_repeat_notification_setting\<close>. Each calls \<^verbatim>\<open>this.db.exec\<close> on a
  fixed list of SQL texts. The texts are data to the engine (some hold characters outside
  the modelled range), so each is denoted by a name, in the order of the source:

  \<^item> \<open>AlterSettingsAddLanguage\<close>: \<^verbatim>\<open>ALTER TABLE settings ADD COLUMN language ...\<close>
  \<^item> \<open>CreateNotificationSettings\<close>: \<^verbatim>\<open>CREATE TABLE IF NOT EXISTS notification_settings\<close>
  \<^item> \<open>CreateNotificationChannels\<close>: \<^verbatim>\<open>CREATE TABLE IF NOT EXISTS notification_channels\<close>
  \<^item> \<open>CreateNotificationHistory\<close>: \<^verbatim>\<open>CREATE TABLE IF NOT EXISTS notification_history\<close>
  \<^item> \<open>CreateNotificationTemplates\<close>: \<^verbatim>\<open>CREATE TABLE IF NOT EXISTS notification_templates\<close>
  \<^item> \<open>CreateNotificationIndexes\<close>: the ten \<^verbatim>\<open>CREATE INDEX IF NOT EXISTS\<close> statements
  \<^item> \<open>InsertDefaultSettings\<close>: \<^verbatim>\<open>INSERT OR IGNORE INTO notification_settings ...\<close>
  \<^item> \<open>InsertDefaultTemplates\<close>: \<^verbatim>\<open>INSERT OR IGNORE INTO notification_templates ...\<close>
  \<^item> \<open>AlterNotificationSettingsAddRepeat\<close>:
    \<^verbatim>\<open>ALTER TABLE notification_settings ADD COLUMN repeat_notification ...\<close>
  \<^item> \<open>UpdateRenewalReminderRepeat\<close>:
    \<^verbatim>\<open>UPDATE notification_settings SET repeat_notification = 1 WHERE ...\<close>

  What \<^verbatim>\<open>this.db.exec\<close> does with a text is the business of the SQL engine: it is a
  parameter \<open>exec\<close> of the migrations. Console output is not modelled.
\<close>

datatype statement =
  AlterSettingsAddLanguage
| CreateNotificationSettings
| CreateNotificationChannels
| CreateNotificationHistory
| CreateNotificationTemplates
| CreateNotificationIndexes
| InsertDefaultSettings
| InsertDefaultTemplates
| AlterNotificationSettingsAddRepeat
| UpdateRenewalReminderRepeat

type_synonym 's exec = "statement \<Rightarrow> 's action"

text \<open>Calls of \<^verbatim>\<open>this.db.exec\<close> in a row: the first that throws ends the function.\<close>

fun exec_all :: "'s exec \<Rightarrow> statement list \<Rightarrow> 's action" where
  "exec_all exec [] d = (None, d)"
| "exec_all exec (q # qs) d =
     (case exec q d of
        (Some e, d') \<Rightarrow> (Some e, d')
      | (None, d') \<Rightarrow> exec_all exec qs d')"

text \<open>
  \<^verbatim>\<open>migration_002_add_notification_system()\<close>: the first statement stands in a
  \<^verbatim>\<open>try\<close> whose \<^verbatim>\<open>catch (error)\<close> only writes to the console; the seven others follow.
\<close>

definition migration_002_add_notification_system :: "'s exec \<Rightarrow> 's action" where
  "migration_002_add_notification_system exec d =
     (case exec AlterSettingsAddLanguage d of
        (Some error, d1) \<Rightarrow>
          exec_all exec
            [CreateNotificationSettings, CreateNotificationChannels, CreateNotificationHistory,
             CreateNotificationTemplates, CreateNotificationIndexes, InsertDefaultSettings,
             InsertDefaultTemplates] d1
      | (None, d1) \<Rightarrow>
          exec_all exec
            [CreateNotificationSettings, CreateNotificationChannels, CreateNotificationHistory,
             CreateNotificationTemplates, CreateNotificationIndexes, InsertDefaultSettings,
             InsertDefaultTemplates] d1)"

text \<open>
  \<^verbatim>\<open>migration_004_add_repeat_notification_setting()\<close>: the \<^verbatim>\<open>ALTER TABLE\<close> stands in a
  \<^verbatim>\<open>try\<close> whose \<^verbatim>\<open>catch (error)\<close> only writes to the console; the \<^verbatim>\<open>UPDATE\<close> follows.
\<close>

definition migration_004_add_repeat_notification_setting :: "'s exec \<Rightarrow> 's action" where
  "migration_004_add_repeat_notification_setting exec d =
     (case exec AlterNotificationSettingsAddRepeat d of
        (Some error, d1) \<Rightarrow> exec UpdateRenewalReminderRepeat d1
      | (None, d1) \<Rightarrow> exec UpdateRenewalReminderRepeat d1)"

section \<open>Notions used to state the properties of the runner\<close>

text \<open>
  The rows of the bookkeeping table (none when the table is absent), the versions they
  record, and the versions whose action a run invoked, in order.
\<close>

definition bookkeeping_rows :: "'s database \<Rightarrow> (int \<times> string) list" where
  "bookkeeping_rows d = (case migrations_table d of None \<Rightarrow> [] | Some rows \<Rightarrow> rows)"

definition recorded_versions :: "'s database \<Rightarrow> int list" where
  "recorded_versions d = map fst (bookkeeping_rows d)"

fun invoked :: "event list \<Rightarrow> int list" where
  "invoked [] = []"
| "invoked (Invoke v # evs) = v # invoked evs"
| "invoked (ev # evs) = invoked evs"

text \<open>
  The recorded versions are a prefix-closed subset of the registry's versions: each is a
  version of the registry, and every smaller version of the registry is recorded too.
\<close>

definition prefix_closed :: "int list \<Rightarrow> int list \<Rightarrow> bool" where
  "prefix_closed registry recorded =
     (set recorded \<subseteq> set registry \<and>
      (\<forall>v\<in>set recorded. \<forall>u\<in>set registry. u < v \<longrightarrow> u \<in> set recorded))"

text \<open>
  An action leaves the bookkeeping table alone when every call of it that returns leaves
  the table as it found it.
\<close>

definition preserves_bookkeeping :: "'s action \<Rightarrow> bool" where
  "preserves_bookkeeping a =
     (\<forall>d d'. a d = (None, d') \<longrightarrow> migrations_table d' = migrations_table d)"

section \<open>Example data\<close>

text \<open>
  A database whose other content is the list of the names of its tables, and two actions
  on it: one creates a table, one creates a table and then throws.
\<close>

definition fresh_database :: "string list database" where
  "fresh_database = \<lparr>foreign_keys = False, migrations_table = None, schema = []\<rparr>"

definition create_table :: "string \<Rightarrow> string list action" where
  "create_table t d = (None, d\<lparr>schema := schema d @ [t]\<rparr>)"

definition create_table_then_throw :: "string \<Rightarrow> error \<Rightarrow> string list action" where
  "create_table_then_throw t e d = (Some e, d\<lparr>schema := schema d @ [t]\<rparr>)"

text \<open>
  Three registries: one whose second action fails after part of its work, one whose two
  actions succeed, and one whose only action fails.
\<close>

definition registry_failing_second :: "string list migration list" where
  "registry_failing_second =
     [\<lparr>version = 1, name = ''one'', up = create_table ''a''\<rparr>,
      \<lparr>version = 2, name = ''two'', up = create_table_then_throw ''b'' (Thrown ''boom'')\<rparr>,
      \<lparr>version = 3, name = ''three'', up = create_table ''c''\<rparr>]"

definition registry_succeeding :: "string list migration list" where
  "registry_succeeding =
     [\<lparr>version = 1, name = ''one'', up = create_table ''a''\<rparr>,
      \<lparr>version = 3, name = ''three'', up = create_table ''c''\<rparr>]"

definition registry_failing :: "string list migration list" where
  "registry_failing =
     [\<lparr>version = 1, name = ''one'', up = create_table_then_throw ''a'' (Thrown ''boom'')\<rparr>]"

text \<open>
  Registries that are not as the data model has them: one out of order, one with a version
  twice, one with the version zero; and two whose first action writes a row of the
  bookkeeping table itself.
\<close>

definition registry_unsorted :: "string list migration list" where
  "registry_unsorted =
     [\<lparr>version = 2, name = ''two'', up = create_table ''a''\<rparr>,
      \<lparr>version = 1, name = ''one'', up = create_table_then_throw ''b'' (Thrown ''boom'')\<rparr>]"

definition registry_duplicate :: "string list migration list" where
  "registry_duplicate =
     [\<lparr>version = 1, name = ''one'', up = create_table ''a''\<rparr>,
      \<lparr>version = 1, name = ''one again'', up = create_table ''b''\<rparr>]"

definition registry_zero_first :: "string list migration list" where
  "registry_zero_first =
     [\<lparr>version = 0, name = ''zero'', up = create_table ''z''\<rparr>,
      \<lparr>version = 1, name = ''one'', up = create_table ''a''\<rparr>]"

definition registry_writing_ahead :: "string list migration list" where
  "registry_writing_ahead =
     [\<lparr>version = 1, name = ''one'', up = insert_migration 2 ''early''\<rparr>,
      \<lparr>version = 2, name = ''two'', up = create_table_then_throw ''b'' (Thrown ''boom'')\<rparr>]"

definition registry_writing_table :: "string list migration list" where
  "registry_writing_table =
     [\<lparr>version = 1, name = ''one'', up = insert_migration 3 ''three''\<rparr>]"

text \<open>
  An SQL engine for the ten statements above, on the same kind of database; an added column
  is kept under the name of its table, a dot and its own name. Adding a column needs the
  table and fails when the column exists; creating a table does nothing when the table
  exists; the indexes and the inserts need their tables; the update needs its table and its
  column. Rows are not kept.
\<close>

definition add_column :: "string \<Rightarrow> string \<Rightarrow> string list action" where
  "add_column t c d =
     (if t \<notin> set (schema d) then (Some (SqliteError (''no such table: '' @ t)), d)
      else if (t @ ''.'' @ c) \<in> set (schema d)
      then (Some (SqliteError (''duplicate column name: '' @ c)), d)
      else (None, d\<lparr>schema := schema d @ [t @ ''.'' @ c]\<rparr>))"

definition create_table_if_not_exists :: "string \<Rightarrow> string list action" where
  "create_table_if_not_exists t d =
     (if t \<in> set (schema d) then (None, d) else (None, d\<lparr>schema := schema d @ [t]\<rparr>))"

definition needs_tables :: "string list \<Rightarrow> string list action" where
  "needs_tables ts d =
     (case filter (\<lambda>t. t \<notin> set (schema d)) ts of
        [] \<Rightarrow> (None, d)
      | t # rest \<Rightarrow> (Some (SqliteError (''no such table: '' @ t)), d))"

definition update_column :: "string \<Rightarrow> string \<Rightarrow> string list action" where
  "update_column t c d =
     (if t \<notin> set (schema d) then (Some (SqliteError (''no such table: '' @ t)), d)
      else if (t @ ''.'' @ c) \<notin> set (schema d)
      then (Some (SqliteError (''no such column: '' @ c)), d)
      else (None, d))"

fun example_exec :: "string list exec" where
  "example_exec AlterSettingsAddLanguage = add_column ''settings'' ''language''"
| "example_exec CreateNotificationSettings = create_table_if_not_exists ''notification_settings''"
| "example_exec CreateNotificationChannels = create_table_if_not_exists ''notification_channels''"
| "example_exec CreateNotificationHistory = create_table_if_not_exists ''notification_history''"
| "example_exec CreateNotificationTemplates = create_table_if_not_exists ''notification_templates''"
| "example_exec CreateNotificationIndexes =
     needs_tables [''notification_settings'', ''notification_channels'',
       ''notification_history'', ''notification_templates'']"
| "example_exec InsertDefaultSettings = needs_tables [''notification_settings'']"
| "example_exec InsertDefaultTemplates = needs_tables [''notification_templates'']"
| "example_exec AlterNotificationSettingsAddRepeat =
     add_column ''notification_settings'' ''repeat_notification''"
| "example_exec UpdateRenewalReminderRepeat =
     update_column ''notification_settings'' ''repeat_notification''"

text \<open>The registry of the second migration alone, on the example engine.\<close>

definition registry_notification :: "string list migration list" where
  "registry_notification =
     [\<lparr>version = 2, name = ''add_notification_system'',
       up = migration_002_add_notification_system example_exec\<rparr>]"

section \<open>Lemmas about numbers\<close>

declare ulp.simps [simp del]

lemma ulp_pos [simp]: "0 < ulp a"
  by (induction a rule: ulp.induct) (subst ulp.simps, auto)

lemma ulp_small: "a < 9007199254740992 \<Longrightarrow> ulp a = 1"
  by (subst ulp.simps) simp

lemma ulp_large: "\<not> a < 9007199254740992 \<Longrightarrow> ulp a = 2 * ulp (a div 2)"
  by (subst ulp.simps) simp

lemma ulp_upper: "a < 9007199254740992 * ulp a"
proof (induction a rule: ulp.induct)
  case (1 a)
  show ?case
  proof (cases "a < 9007199254740992")
    case True
    then show ?thesis by (simp add: ulp_small)
  next
    case False
    with 1 have "a div 2 < 9007199254740992 * ulp (a div 2)" by simp
    then have "a < 9007199254740992 * (2 * ulp (a div 2))" by linarith
    with ulp_large [OF False] show ?thesis by simp
  qed
qed

lemma ulp_lower: "9007199254740992 \<le> a \<Longrightarrow> 4503599627370496 * ulp a \<le> a"
proof (induction a rule: ulp.induct)
  case (1 a)
  then have large: "\<not> a < 9007199254740992" by simp
  show ?case
  proof (cases "a div 2 < 9007199254740992")
    case True
    then have "ulp a = 2" using large by (simp add: ulp_large ulp_small)
    then show ?thesis using 1(2) by simp
  next
    case False
    with 1(1) large have "4503599627370496 * ulp (a div 2) \<le> a div 2" by simp
    then have "4503599627370496 * (2 * ulp (a div 2)) \<le> a" by linarith
    with ulp_large [OF large] show ?thesis by simp
  qed
qed

lemma ulp_dvd_mono: "a \<le> b \<Longrightarrow> ulp a dvd ulp b"
proof (induction b arbitrary: a rule: ulp.induct)
  case (1 b)
  show ?case
  proof (cases "a < 9007199254740992")
    case True
    then show ?thesis by (simp add: ulp_small)
  next
    case False
    with 1(2) have lb: "\<not> b < 9007199254740992" by simp
    have "a div 2 \<le> b div 2" using 1(2) by (rule zdiv_mono1) simp
    with 1(1) lb have "ulp (a div 2) dvd ulp (b div 2)" by simp
    then show ?thesis using False lb by (simp add: ulp_large)
  qed
qed

lemma round_to_lower: "0 < u \<Longrightarrow> (a div u) * u \<le> round_to u a"
  by (auto simp: round_to_def Let_def distrib_right)

lemma round_to_upper: "0 < u \<Longrightarrow> round_to u a \<le> (a div u + 1) * u"
  by (auto simp: round_to_def Let_def distrib_right)

lemma round_to_multiple: "0 < u \<Longrightarrow> u dvd a \<Longrightarrow> round_to u a = a"
  by (auto simp: round_to_def Let_def)

lemma round_to_mono:
  assumes "0 < u" and "a \<le> b"
  shows "round_to u a \<le> round_to u b"
proof (cases "a div u < b div u")
  case True
  then have "a div u + 1 \<le> b div u" by simp
  then have "(a div u + 1) * u \<le> (b div u) * u"
    using assms(1) by (simp add: mult_right_mono)
  with round_to_upper [OF assms(1), of a] round_to_lower [OF assms(1), of b]
  show ?thesis by linarith
next
  case False
  moreover have "a div u \<le> b div u" using assms by (simp add: zdiv_mono1)
  ultimately have q: "a div u = b div u" by simp
  have "a - a mod u = b - b mod u"
    by (simp add: minus_mod_eq_div_mult q)
  with assms(2) have "a mod u \<le> b mod u" by linarith
  then show ?thesis using q assms(1) by (auto simp: round_to_def Let_def distrib_right)
qed


lemma div_mult_le_int: "(0::int) < u \<Longrightarrow> (a div u) * u \<le> a"
  using minus_mod_eq_div_mult [of a u] pos_mod_sign [of u a] by linarith

lemma less_div_mult_int:
  assumes "(0::int) < u"
  shows "a < (a div u + 1) * u"
proof -
  have "a mod u < u" using assms by simp
  with minus_mod_eq_div_mult [of a u] have "a < a div u * u + u" by linarith
  then show ?thesis by (simp add: distrib_right)
qed

lemma div_less_int: "(0::int) < u \<Longrightarrow> a < c * u \<Longrightarrow> a div u < c"
proof (rule ccontr)
  assume u: "0 < u" and a: "a < c * u" and "\<not> a div u < c"
  then have "c * u \<le> (a div u) * u" by (simp add: mult_right_mono)
  with div_mult_le_int [OF u, of a] a show False by linarith
qed

lemma le_div_int: "(0::int) < u \<Longrightarrow> c * u \<le> a \<Longrightarrow> c \<le> a div u"
proof (rule ccontr)
  assume u: "0 < u" and a: "c * u \<le> a" and "\<not> c \<le> a div u"
  then have "a div u + 1 \<le> c" by simp
  then have "(a div u + 1) * u \<le> c * u" using u by (simp add: mult_right_mono)
  with less_div_mult_int [OF u, of a] a show False by linarith
qed

lemma double_of_small: "0 \<le> a \<Longrightarrow> a \<le> 9007199254740992 \<Longrightarrow> double_of a = a"
proof (cases "a < 9007199254740992")
  case True
  then show ?thesis by (simp add: double_of_def ulp_small round_to_multiple)
next
  case False
  assume "a \<le> 9007199254740992"
  with False have a: "a = 9007199254740992" by simp
  have "ulp 9007199254740992 = 2" by (simp add: ulp_large ulp_small)
  then show ?thesis unfolding a double_of_def by (simp add: round_to_multiple)
qed

lemma double_of_bounds:
  assumes "9007199254740992 \<le> a"
  shows "4503599627370496 * ulp a \<le> double_of a" and "double_of a \<le> 9007199254740992 * ulp a"
proof -
  let ?u = "ulp a"
  have u: "0 < ?u" by simp
  have lo: "4503599627370496 * ?u \<le> a" using assms by (rule ulp_lower)
  have hi: "a < 9007199254740992 * ?u" by (rule ulp_upper)
  have "4503599627370496 \<le> a div ?u"
    using u lo by (rule le_div_int)
  then have "4503599627370496 * ?u \<le> (a div ?u) * ?u"
    using u by (simp add: mult_right_mono)
  with round_to_lower [OF u, of a] show "4503599627370496 * ?u \<le> double_of a"
    unfolding double_of_def by linarith
  have "a div ?u < 9007199254740992"
    using u hi by (rule div_less_int)
  then have "a div ?u + 1 \<le> 9007199254740992" by simp
  then have "(a div ?u + 1) * ?u \<le> 9007199254740992 * ?u"
    using u by (simp add: mult_right_mono)
  with round_to_upper [OF u, of a] show "double_of a \<le> 9007199254740992 * ?u"
    unfolding double_of_def by linarith
qed

lemma round_to_dvd: "u dvd round_to u a"
  by (simp add: round_to_def Let_def)

lemma ulp_ge_2:
  assumes "9007199254740992 \<le> a"
  shows "2 \<le> ulp a"
proof -
  have "0 < ulp (a div 2)" by (rule ulp_pos)
  then have "2 \<le> 2 * ulp (a div 2)" by linarith
  moreover have "ulp a = 2 * ulp (a div 2)" using assms by (intro ulp_large) simp
  ultimately show ?thesis by simp
qed

lemma dvd_neq_twice:
  assumes "(0::int) < u" and "0 < w" and "u dvd w" and "u \<noteq> w"
  shows "2 * u \<le> w"
proof -
  from assms(3) obtain k where k: "w = u * k" ..
  with assms have "0 < k" "k \<noteq> 1" by (auto simp: zero_less_mult_iff)
  then have "2 \<le> k" by simp
  then have "u * 2 \<le> u * k" using assms(1) by (simp add: mult_left_mono)
  with k show ?thesis by simp
qed

lemma double_of_nonneg: "0 \<le> a \<Longrightarrow> 0 \<le> double_of a"
proof -
  assume "0 \<le> a"
  then have "0 \<le> a div ulp a" by (simp add: pos_imp_zdiv_nonneg_iff)
  moreover have "0 \<le> ulp a" using ulp_pos [of a] by linarith
  ultimately have "0 \<le> (a div ulp a) * ulp a" by (rule mult_nonneg_nonneg)
  with round_to_lower [of "ulp a" a] show ?thesis by (simp add: double_of_def)
qed

lemma double_of_pos: "0 < a \<Longrightarrow> 0 < double_of a"
proof (cases "a \<le> 9007199254740992")
  case True
  assume "0 < a"
  with True show ?thesis by (simp add: double_of_small)
next
  case False
  then have "4503599627370496 * ulp a \<le> double_of a" by (intro double_of_bounds) simp
  moreover have "0 < 4503599627370496 * ulp a" by simp
  ultimately show ?thesis by linarith
qed

lemma double_of_mono:
  assumes "0 \<le> a" and "a \<le> b"
  shows "double_of a \<le> double_of b"
proof (cases "ulp a = ulp b")
  case True
  then show ?thesis using assms(2) by (simp add: double_of_def round_to_mono)
next
  case False
  have "ulp a dvd ulp b" using assms(2) by (rule ulp_dvd_mono)
  with False have twice: "2 * ulp a \<le> ulp b" by (intro dvd_neq_twice) simp_all
  have "\<not> b < 9007199254740992"
  proof
    assume "b < 9007199254740992"
    then have "ulp b = 1" by (rule ulp_small)
    with twice ulp_pos [of a] show False by linarith
  qed
  then have lo: "4503599627370496 * ulp b \<le> double_of b" by (intro double_of_bounds) simp
  have hi: "double_of a \<le> 9007199254740992 * ulp a"
  proof (cases "a < 9007199254740992")
    case True
    with assms(1) show ?thesis by (simp add: double_of_small ulp_small)
  next
    case False
    then show ?thesis by (intro double_of_bounds) simp
  qed
  from twice hi lo show ?thesis by linarith
qed

lemma double_of_idem:
  assumes "0 \<le> a"
  shows "double_of (double_of a) = double_of a"
proof (cases "a \<le> 9007199254740992")
  case True
  with assms show ?thesis by (simp add: double_of_small)
next
  case False
  then have large: "9007199254740992 \<le> a" by simp
  let ?u = "ulp a" and ?x = "double_of a"
  let ?w = "ulp ?x"
  have u2: "2 \<le> ?u" using large by (rule ulp_ge_2)
  have lo: "4503599627370496 * ?u \<le> ?x" and hi: "?x \<le> 9007199254740992 * ?u"
    using large by (rule double_of_bounds)+
  from lo u2 have xlarge: "9007199254740992 \<le> ?x" by linarith
  have ux: "?u dvd ?x" by (simp add: double_of_def round_to_dvd)
  have "?w dvd ?x"
  proof (cases "?x \<le> a")
    case True
    then have "?w dvd ?u" by (rule ulp_dvd_mono)
    then show ?thesis using ux by (rule dvd_trans)
  next
    case False
    then have "?u dvd ?w" by (intro ulp_dvd_mono) simp
    show ?thesis
    proof (cases "?u = ?w")
      case True
      with ux show ?thesis by simp
    next
      case False
      with \<open>?u dvd ?w\<close> have "2 * ?u \<le> ?w" by (intro dvd_neq_twice) simp_all
      moreover have "4503599627370496 * ?w \<le> ?x" using xlarge by (rule ulp_lower)
      ultimately have "?x = 4503599627370496 * ?w" using hi by linarith
      then show ?thesis by (metis dvd_triv_right)
    qed
  qed
  then show ?thesis by (subst (1) double_of_def) (simp add: round_to_multiple)
qed

lemma js_number_safe:
  "- 9007199254740992 \<le> v \<Longrightarrow> v \<le> 9007199254740992 \<Longrightarrow> js_number v = v"
  by (simp add: js_number_def double_of_small)

lemma js_number_mono: "a \<le> b \<Longrightarrow> js_number a \<le> js_number b"
proof -
  assume ab: "a \<le> b"
  consider "0 \<le> a" | "a < 0" "0 \<le> b" | "b < 0" using ab by linarith
  then show ?thesis
  proof cases
    case 1
    with ab show ?thesis by (simp add: js_number_def double_of_mono)
  next
    case 2
    then have "0 \<le> double_of (- a)" "0 \<le> double_of b"
      by (simp_all add: double_of_nonneg)
    with 2 show ?thesis by (simp add: js_number_def)
  next
    case 3
    with ab have "double_of (- b) \<le> double_of (- a)" by (intro double_of_mono) simp_all
    with 3 ab show ?thesis by (simp add: js_number_def)
  qed
qed

lemma js_number_idem: "js_number (js_number v) = js_number v"
proof (cases "v < 0")
  case True
  then have "0 < double_of (- v)" by (intro double_of_pos) simp
  with True show ?thesis by (simp add: js_number_def double_of_idem)
next
  case False
  then have "0 \<le> double_of v" by (intro double_of_nonneg) simp
  with False show ?thesis by (simp add: js_number_def double_of_idem)
qed

lemma js_number_pos: "0 < v \<Longrightarrow> 0 < js_number v"
  by (simp add: js_number_def double_of_pos)

section \<open>Lemmas about the string methods\<close>

lemma isWhiteSpace_newline [simp]: "isWhiteSpace newline"
  by (simp add: isWhiteSpace_def newline_def)

lemma split_nl_not_Nil [simp]: "split_nl s \<noteq> []"
  by (induction s) (auto split: list.splits)

lemma split_nl_no_newline: "newline \<notin> set s \<Longrightarrow> split_nl s = [s]"
  by (induction s) auto

lemma split_nl_append_newline:
  "newline \<notin> set a \<Longrightarrow> split_nl (a @ newline # b) = a # split_nl b"
  by (induction a) (auto split: list.splits)

lemma split_nl_lines_no_newline: "l \<in> set (split_nl s) \<Longrightarrow> newline \<notin> set l"
proof (induction s arbitrary: l)
  case Nil
  then show ?case by simp
next
  case (Cons c cs)
  show ?case
  proof (cases "c = newline")
    case True
    with Cons show ?thesis by auto
  next
    case False
    obtain h t where ht: "split_nl cs = h # t"
      by (cases "split_nl cs") auto
    with Cons False show ?thesis by auto
  qed
qed

lemma split_nl_buffered:
  "(\<forall>l\<in>set ls. newline \<notin> set l) \<Longrightarrow> split_nl (buffered ls @ r) = ls @ split_nl r"
  by (induction ls) (auto simp: buffered_def split_nl_append_newline)

lemma dropWhile_all_iff: "(\<forall>c\<in>set (dropWhile P s). P c) \<longleftrightarrow> (\<forall>c\<in>set s. P c)"
  by (induction s) auto

lemma isBlank_iff: "isBlank s \<longleftrightarrow> (\<forall>c\<in>set s. isWhiteSpace c)"
  by (simp add: isBlank_def trim_def trimEnd_def trimStart_def dropWhile_eq_Nil_conv
      dropWhile_all_iff)

lemma trimStart_append: "\<not> isBlank l \<Longrightarrow> trimStart (l @ r) = trimStart l @ r"
  by (auto simp: isBlank_iff trimStart_def dropWhile_append1)

lemma trimEnd_append: "\<not> isBlank r \<Longrightarrow> trimEnd (l @ r) = l @ trimEnd r"
  by (auto simp: isBlank_iff trimEnd_def dropWhile_append1)

lemma trimEnd_snoc_space: "isWhiteSpace c \<Longrightarrow> trimEnd (s @ [c]) = trimEnd s"
  by (simp add: trimEnd_def)

lemma trimEnd_Cons:
  "trimEnd (c # s) = (if trimEnd s = [] \<and> isWhiteSpace c then [] else c # trimEnd s)"
  by (auto simp: trimEnd_def dropWhile_append dropWhile_eq_Nil_conv)

lemma trimEnd_Nil [simp]: "trimEnd [] = []"
  by (simp add: trimEnd_def)

lemma trim_commute: "trimEnd (trimStart s) = trimStart (trimEnd s)"
  by (induction s) (auto simp: trimEnd_Cons trimStart_def)

lemma trimStart_idem: "trimStart (trimStart s) = trimStart s"
  by (simp add: trimStart_def)

lemma trimEnd_idem: "trimEnd (trimEnd s) = trimEnd s"
  by (simp add: trimEnd_def)

lemma trim_trimStart: "trim (trimStart s) = trim s"
  by (simp add: trim_def trimStart_idem)

lemma trim_trimEnd: "trim (trimEnd s) = trim s"
  by (simp add: trim_def trim_commute trimEnd_idem)

lemma trim_idem: "trim (trim s) = trim s"
  by (simp add: trim_def trim_commute trimEnd_idem trimStart_idem)

lemma set_trimStart: "set (trimStart s) \<subseteq> set s"
  by (auto simp: trimStart_def dest: set_dropWhileD)

lemma set_trimEnd: "set (trimEnd s) \<subseteq> set s"
  by (auto simp: trimEnd_def dest: set_dropWhileD)

lemma set_trim: "set (trim s) \<subseteq> set s"
  using set_trimStart set_trimEnd by (fastforce simp: trim_def)


lemma trim_not_Nil_iff: "trim s \<noteq> [] \<longleftrightarrow> \<not> isBlank s"
  by (simp add: isBlank_def)

lemma isBlank_append: "isBlank (a @ b) \<longleftrightarrow> isBlank a \<and> isBlank b"
  by (auto simp: isBlank_iff)

lemma isBlank_buffered: "isBlank (buffered ls) \<longleftrightarrow> (\<forall>l\<in>set ls. isBlank l)"
  by (induction ls) (auto simp: buffered_def isBlank_iff)

lemma buffered_Nil [simp]: "buffered [] = []"
  by (simp add: buffered_def)

lemma buffered_append: "buffered (xs @ ys) = buffered xs @ buffered ys"
  by (simp add: buffered_def)

lemma buffered_single: "buffered [l] = l @ [newline]"
  by (simp add: buffered_def)

lemma buffered_Cons: "buffered (l # ls) = l @ newline # buffered ls"
  by (simp add: buffered_def)

lemma trim_buffered_single:
  assumes "\<not> isBlank l"
  shows "trim (buffered [l]) = trim l"
proof -
  have "trim (l @ [newline]) = trimEnd (trimStart l @ [newline])"
    using assms by (simp add: trim_def trimStart_append)
  also have "\<dots> = trimEnd (trimStart l)"
    by (simp add: trimEnd_snoc_space)
  finally show ?thesis by (simp add: buffered_single trim_def)
qed

lemma trim_buffered_many:
  assumes "\<not> isBlank l" and "\<not> isBlank k"
  shows "trim (buffered (l # ms @ [k])) = trimStart l @ newline # buffered ms @ trimEnd k"
proof -
  have "buffered (l # ms @ [k]) = l @ (newline # buffered ms @ k @ [newline])"
    by (simp add: buffered_Cons buffered_append buffered_single)
  then have "trimStart (buffered (l # ms @ [k])) = trimStart l @ newline # buffered ms @ k @ [newline]"
    using assms(1) by (simp add: trimStart_append)
  moreover have "trimEnd (trimStart l @ newline # buffered ms @ k @ [newline])
      = trimEnd ((trimStart l @ newline # buffered ms @ k) @ [newline])"
    by simp
  moreover have "\<dots> = trimEnd ((trimStart l @ newline # buffered ms) @ k)"
    by (simp only: trimEnd_snoc_space [OF isWhiteSpace_newline]) simp
  moreover have "\<dots> = (trimStart l @ newline # buffered ms) @ trimEnd k"
    using assms(2) by (rule trimEnd_append)
  ultimately show ?thesis by (simp add: trim_def)
qed

lemma trimmedLines_group:
  assumes "g \<noteq> []" and "\<forall>l\<in>set g. \<not> isBlank l" and "\<forall>l\<in>set g. newline \<notin> set l"
  shows "trimmedLines (trim (buffered g)) = map trim g"
proof (cases g)
  case Nil
  with assms show ?thesis by simp
next
  case (Cons l rest)
  show ?thesis
  proof (cases rest rule: rev_cases)
    case Nil
    with Cons assms have nb: "\<not> isBlank l" and nn: "newline \<notin> set l" by auto
    from nn have "newline \<notin> set (trim l)" using set_trim by blast
    then show ?thesis
      using Cons Nil nb
      by (simp add: trim_buffered_single trimmedLines_def split_nl_no_newline trim_idem)
  next
    case (snoc ms k)
    with Cons assms have nb: "\<not> isBlank l" "\<not> isBlank k"
      and nn: "newline \<notin> set l" "newline \<notin> set k" "\<forall>m\<in>set ms. newline \<notin> set m" by auto
    have a: "newline \<notin> set (trimStart l)" using nn(1) set_trimStart by blast
    have b: "newline \<notin> set (trimEnd k)" using nn(2) set_trimEnd by blast
    have "split_nl (trimStart l @ newline # buffered ms @ trimEnd k)
        = trimStart l # ms @ [trimEnd k]"
      using a b nn(3) by (simp add: split_nl_append_newline split_nl_buffered split_nl_no_newline)
    then show ?thesis
      using Cons snoc nb
      by (simp add: trim_buffered_many trimmedLines_def trim_trimStart trim_trimEnd)
  qed
qed

lemma trim_buffered_not_Nil:
  "g \<noteq> [] \<Longrightarrow> \<forall>l\<in>set g. \<not> isBlank l \<Longrightarrow> trim (buffered g) \<noteq> []"
  by (cases g) (auto simp: trim_not_Nil_iff isBlank_buffered)

section \<open>Lemmas about the loop of the splitter\<close>

lemma parse_line_eq:
  "parse_line st l =
     (if isBlank l then st
      else if endsWith (trim l) '';'' \<and> (closesTrigger l \<or> \<not> (opensTrigger l \<or> inTrigger st))
      then \<lparr>statements = statements st @ [trim (currentStatement st @ l @ [newline])],
            currentStatement = [], inTrigger = False\<rparr>
      else \<lparr>statements = statements st, currentStatement = currentStatement st @ l @ [newline],
            inTrigger = (opensTrigger l \<or> inTrigger st)\<rparr>)"
  by (auto simp: parse_line_def Let_def isBlank_def opensTrigger_def closesTrigger_def)

lemma parse_lines_Nil [simp]: "parse_lines st [] = st"
  by (simp add: parse_lines_def)

lemma parse_lines_Cons [simp]: "parse_lines st (l # ls) = parse_lines (parse_line st l) ls"
  by (simp add: parse_lines_def)

lemma parse_lines_append: "parse_lines st (xs @ ys) = parse_lines (parse_lines st xs) ys"
  by (simp add: parse_lines_def)

lemma nonBlankLines_Nil [simp]: "nonBlankLines [] = []"
  by (simp add: nonBlankLines_def)

lemma nonBlankLines_Cons [simp]:
  "nonBlankLines (l # ls) = (if isBlank l then nonBlankLines ls else l # nonBlankLines ls)"
  by (simp add: nonBlankLines_def)

lemma nonBlankLines_append [simp]:
  "nonBlankLines (xs @ ys) = nonBlankLines xs @ nonBlankLines ys"
  by (simp add: nonBlankLines_def)

lemma closesTrigger_not_blank: "closesTrigger l \<Longrightarrow> \<not> isBlank l"
  by (auto simp: closesTrigger_def isBlank_def endsWith_def)

lemma opensTrigger_not_blank: "opensTrigger l \<Longrightarrow> \<not> isBlank l"
  by (auto simp: opensTrigger_def isBlank_def startsWith_def toUpperCase_def)

lemma parse_lines_in_trigger:
  "inTrigger st \<Longrightarrow> \<forall>l\<in>set body. \<not> closesTrigger l \<Longrightarrow>
   parse_lines st body =
     st\<lparr>currentStatement := currentStatement st @ buffered (nonBlankLines body)\<rparr>"
proof (induction body arbitrary: st)
  case Nil
  then show ?case by simp
next
  case (Cons l body)
  show ?case
  proof (cases "isBlank l")
    case True
    with Cons show ?thesis by (simp add: parse_line_eq)
  next
    case False
    let ?st' = "st\<lparr>currentStatement := currentStatement st @ l @ [newline]\<rparr>"
    have step: "parse_line st l = ?st'"
      using False Cons.prems by (simp add: parse_line_eq)
    have "parse_lines ?st' body =
        ?st'\<lparr>currentStatement := currentStatement ?st' @ buffered (nonBlankLines body)\<rparr>"
      using Cons.prems by (intro Cons.IH) auto
    then show ?thesis
      using False step by (simp add: buffered_Cons)
  qed
qed

lemma parse_line_closes:
  "opensTrigger c \<or> inTrigger st \<Longrightarrow> closesTrigger c \<Longrightarrow>
   parse_line st c =
     \<lparr>statements = statements st @ [trim (currentStatement st @ c @ [newline])],
      currentStatement = [], inTrigger = False\<rparr>"
  using closesTrigger_not_blank [of c]
  by (auto simp: parse_line_eq closesTrigger_def)

lemma parse_line_statements_prefix:
  "parse_line (st\<lparr>statements := S @ statements st\<rparr>) l
     = (parse_line st l)\<lparr>statements := S @ statements (parse_line st l)\<rparr>"
  by (simp add: parse_line_eq)

lemma parse_lines_statements_prefix:
  "parse_lines (st\<lparr>statements := S @ statements st\<rparr>) ls
     = (parse_lines st ls)\<lparr>statements := S @ statements (parse_lines st ls)\<rparr>"
proof (induction ls arbitrary: st)
  case Nil
  then show ?case by simp
next
  case (Cons l ls)
  show ?case
    by (simp add: parse_line_statements_prefix Cons.IH)
qed

lemma parse_finish_statements_prefix:
  "parse_finish (st\<lparr>statements := S @ statements st\<rparr>) = S @ parse_finish st"
  by (simp add: parse_finish_def)

lemma parse_lines_groups:
  assumes "statements st = map (\<lambda>g. trim (buffered g)) gs"
    and "currentStatement st = buffered p" and "[] \<notin> set gs"
  shows "\<exists>gs' p'. statements (parse_lines st ls) = map (\<lambda>g. trim (buffered g)) gs'
           \<and> currentStatement (parse_lines st ls) = buffered p' \<and> [] \<notin> set gs'
           \<and> concat gs' @ p' = concat gs @ p @ nonBlankLines ls"
  using assms
proof (induction ls arbitrary: st gs p)
  case Nil
  then show ?case by auto
next
  case (Cons l ls)
  show ?case
  proof (cases "isBlank l")
    case True
    then have "parse_line st l = st" by (simp add: parse_line_eq)
    with Cons.IH [OF Cons.prems] True show ?thesis by simp
  next
    case False
    let ?st' = "parse_line st l"
    have cur: "currentStatement st @ l @ [newline] = buffered (p @ [l])"
      using Cons.prems(2) by (simp add: buffered_append buffered_single)
    show ?thesis
    proof (cases "endsWith (trim l) '';'' \<and> (closesTrigger l \<or> \<not> (opensTrigger l \<or> inTrigger st))")
      case True
      then have push: "statements ?st' = statements st @ [trim (buffered (p @ [l]))]"
        "currentStatement ?st' = []"
        using False cur by (simp_all add: parse_line_eq)
      have "\<exists>gs' p'. statements (parse_lines ?st' ls) = map (\<lambda>g. trim (buffered g)) gs'
           \<and> currentStatement (parse_lines ?st' ls) = buffered p' \<and> [] \<notin> set gs'
           \<and> concat gs' @ p' = concat (gs @ [p @ [l]]) @ [] @ nonBlankLines ls"
        using push Cons.prems by (intro Cons.IH) auto
      then show ?thesis using \<open>\<not> isBlank l\<close> by simp
    next
      case no: False
      then have keep: "statements ?st' = statements st"
        "currentStatement ?st' = buffered (p @ [l])"
        using False cur by (auto simp: parse_line_eq)
      have "\<exists>gs' p'. statements (parse_lines ?st' ls) = map (\<lambda>g. trim (buffered g)) gs'
           \<and> currentStatement (parse_lines ?st' ls) = buffered p' \<and> [] \<notin> set gs'
           \<and> concat gs' @ p' = concat gs @ (p @ [l]) @ nonBlankLines ls"
        using keep Cons.prems by (intro Cons.IH) auto
      then show ?thesis using \<open>\<not> isBlank l\<close> by simp
    qed
  qed
qed

lemma isBlank_Nil [simp]: "isBlank []"
  by (simp add: isBlank_iff)

lemma nonBlankLines_not_blank: "l \<in> set (nonBlankLines ls) \<Longrightarrow> \<not> isBlank l"
  by (simp add: nonBlankLines_def)

lemma nonBlankLines_subset: "l \<in> set (nonBlankLines ls) \<Longrightarrow> l \<in> set ls"
  by (simp add: nonBlankLines_def)

lemma parseSQL_groups:
  "\<exists>gs. parseSQL sql = map (\<lambda>g. trim (buffered g)) gs \<and> [] \<notin> set gs
        \<and> concat gs = nonBlankLines (split_nl sql)"
proof -
  let ?st = "parse_lines parse_init (split_nl sql)"
  obtain gs p where g: "statements ?st = map (\<lambda>g. trim (buffered g)) gs"
    "currentStatement ?st = buffered p" "[] \<notin> set gs"
    "concat gs @ p = nonBlankLines (split_nl sql)"
    using parse_lines_groups [of parse_init "[]" "[]" "split_nl sql"]
    by (auto simp: parse_init_def)
  show ?thesis
  proof (cases "p = []")
    case True
    then have "parseSQL sql = map (\<lambda>g. trim (buffered g)) gs"
      using g by (simp add: parseSQL_def parse_finish_def trim_def trimStart_def)
    with g True show ?thesis by auto
  next
    case False
    have "\<forall>l\<in>set p. \<not> isBlank l"
    proof
      fix l assume "l \<in> set p"
      then have "l \<in> set (concat gs @ p)" by simp
      then show "\<not> isBlank l" unfolding g(4) by (rule nonBlankLines_not_blank)
    qed
    then have "trim (buffered p) \<noteq> []" using False by (simp add: trim_buffered_not_Nil)
    then have "parseSQL sql = map (\<lambda>g. trim (buffered g)) (gs @ [p])"
      using g by (simp add: parseSQL_def parse_finish_def)
    with g False show ?thesis by (intro exI [of _ "gs @ [p]"]) auto
  qed
qed

lemma trim_Nil: "trim [] = []"
  by (simp add: trim_def trimStart_def)

lemma parse_line_opens:
  assumes "opensTrigger l" and "\<not> closesTrigger l"
  shows "parse_line st l =
     \<lparr>statements = statements st, currentStatement = currentStatement st @ l @ [newline],
      inTrigger = True\<rparr>"
  using assms opensTrigger_not_blank [of l] by (simp add: parse_line_eq)

lemma parse_lines_whole_trigger:
  assumes "opensTrigger opener" and "\<not> closesTrigger opener"
    and "\<forall>l\<in>set body. \<not> closesTrigger l" and "closesTrigger closer"
  shows "parse_lines st (opener # body @ [closer]) =
     \<lparr>statements = statements st @
        [trim (currentStatement st @ buffered (nonBlankLines (opener # body @ [closer])))],
      currentStatement = [], inTrigger = False\<rparr>"
proof -
  let ?st1 = "\<lparr>statements = statements st,
      currentStatement = currentStatement st @ opener @ [newline], inTrigger = True\<rparr>"
  have 1: "parse_line st opener = ?st1"
    using assms(1,2) by (rule parse_line_opens)
  have 2: "parse_lines ?st1 body =
      ?st1\<lparr>currentStatement := currentStatement ?st1 @ buffered (nonBlankLines body)\<rparr>"
    using assms(3) by (intro parse_lines_in_trigger) simp_all
  have nb: "\<not> isBlank opener" "\<not> isBlank closer"
    using assms(1,4) opensTrigger_not_blank closesTrigger_not_blank by auto
  show ?thesis
    using nb assms(4)
    by (simp add: parse_lines_append 1 2 parse_line_closes buffered_Cons buffered_append
        buffered_single)
qed

section \<open>Claims about the statement splitter\<close>

text \<open>
  C8. The statement splitter, given the text
  \<^verbatim>\<open>"CREATE TABLE t (id INT);\nCREATE TABLE u (id INT);\n"\<close>, returns exactly two
  statements, each ending with the terminator character \<^verbatim>\<open>;\<close>: the two lines of the
  text.
\<close>

theorem parseSQL_two_statements:
  "parseSQL (''CREATE TABLE t (id INT);'' @ [newline] @ ''CREATE TABLE u (id INT);'' @ [newline])
     = [''CREATE TABLE t (id INT);'', ''CREATE TABLE u (id INT);'']
   \<and> length (parseSQL (''CREATE TABLE t (id INT);'' @ [newline] @
        ''CREATE TABLE u (id INT);'' @ [newline])) = 2
   \<and> endsWith ''CREATE TABLE t (id INT);'' '';'' \<and> endsWith ''CREATE TABLE u (id INT);'' '';''"
  by code_simp

text \<open>
  C4, as the code has it. The claim is that a trigger definition over several lines, with a
  line of its body ending in \<^verbatim>\<open>;\<close> before the closing \<^verbatim>\<open>END;\<close>, always comes back as
  one statement. The splitter recognises the end of a trigger by the test of C9 alone, so a
  body line such as \<^verbatim>\<open>UPDATE t SET a = CASE WHEN b THEN 1 ELSE 0 END;\<close> ends the statement
  early and the trigger comes back in two pieces (the counterexample below). What holds: when the lines of the text are \<open>pre\<close>, then a line that opens a
  trigger (it starts, after trimming and in upper case, with \<^verbatim>\<open>CREATE TRIGGER\<close>) and does
  not itself pass the closing test, then body lines none of which passes the closing test,
  then a line that passes it, then \<open>post\<close>, and the buffer is empty after \<open>pre\<close>, the
  splitter returns the statements of \<open>pre\<close>, then exactly one statement made of all the
  non-blank lines of the trigger, then the statements of \<open>post\<close>. Body lines that end in
  \<^verbatim>\<open>;\<close> are allowed.
\<close>

theorem parseSQL_trigger_one_statement:
  assumes "split_nl sql = pre @ opener # body @ closer # post"
    and "currentStatement (parse_lines parse_init pre) = []"
    and "opensTrigger opener" and "\<not> closesTrigger opener"
    and "\<forall>l\<in>set body. \<not> closesTrigger l" and "closesTrigger closer"
  shows "parseSQL sql =
     statements (parse_lines parse_init pre)
     @ [trim (buffered (nonBlankLines (opener # body @ [closer])))]
     @ parse_finish (parse_lines parse_init post)"
proof -
  let ?st0 = "parse_lines parse_init pre"
  let ?S = "statements ?st0 @ [trim (buffered (nonBlankLines (opener # body @ [closer])))]"
  have "parse_lines ?st0 (opener # body @ [closer]) =
      \<lparr>statements = ?S, currentStatement = [], inTrigger = False\<rparr>"
    using parse_lines_whole_trigger [OF assms(3-6), of ?st0] assms(2) by simp
  also have "\<dots> = parse_init\<lparr>statements := ?S @ statements parse_init\<rparr>"
    by (simp add: parse_init_def)
  finally have "parse_lines parse_init (pre @ (opener # body @ [closer]) @ post) =
      (parse_lines parse_init post)\<lparr>statements := ?S @ statements (parse_lines parse_init post)\<rparr>"
    by (simp only: parse_lines_append parse_lines_statements_prefix)
  moreover have "split_nl sql = pre @ (opener # body @ [closer]) @ post"
    using assms(1) by simp
  ultimately have "parseSQL sql = parse_finish
      ((parse_lines parse_init post)\<lparr>statements := ?S @ statements (parse_lines parse_init post)\<rparr>)"
    by (simp only: parseSQL_def)
  also have "\<dots> = ?S @ parse_finish (parse_lines parse_init post)"
    by (rule parse_finish_statements_prefix)
  finally show ?thesis by simp
qed

text \<open>
  The theorem at a text of six lines: a table, a trigger of four lines whose body holds the
  terminated line \<^verbatim>\<open>UPDATE t SET a = 1;\<close>, and another table.
\<close>

theorem parseSQL_trigger_one_statement_witness:
  "split_nl (''CREATE TABLE t (a INT);'' @ [newline] @ ''CREATE TRIGGER tr AFTER UPDATE ON t'' @
      [newline] @ ''BEGIN'' @ [newline] @ ''  UPDATE t SET a = 1;'' @ [newline] @ ''END;'' @
      [newline] @ ''CREATE TABLE u (id INT);'')
    = [''CREATE TABLE t (a INT);''] @ ''CREATE TRIGGER tr AFTER UPDATE ON t''
       # [''BEGIN'', ''  UPDATE t SET a = 1;''] @ ''END;'' # [''CREATE TABLE u (id INT);'']
   \<and> currentStatement (parse_lines parse_init [''CREATE TABLE t (a INT);'']) = []
   \<and> opensTrigger ''CREATE TRIGGER tr AFTER UPDATE ON t''
   \<and> \<not> closesTrigger ''CREATE TRIGGER tr AFTER UPDATE ON t''
   \<and> \<not> closesTrigger ''BEGIN'' \<and> \<not> closesTrigger ''  UPDATE t SET a = 1;''
   \<and> endsWith (trim ''  UPDATE t SET a = 1;'') '';''
   \<and> closesTrigger ''END;''
   \<and> parseSQL (''CREATE TABLE t (a INT);'' @ [newline] @ ''CREATE TRIGGER tr AFTER UPDATE ON t'' @
      [newline] @ ''BEGIN'' @ [newline] @ ''  UPDATE t SET a = 1;'' @ [newline] @ ''END;'' @
      [newline] @ ''CREATE TABLE u (id INT);'')
    = [''CREATE TABLE t (a INT);'',
       ''CREATE TRIGGER tr AFTER UPDATE ON t'' @ [newline] @ ''BEGIN'' @ [newline] @
       ''  UPDATE t SET a = 1;'' @ [newline] @ ''END;'',
       ''CREATE TABLE u (id INT);'']"
proof -
  let ?sql = "''CREATE TABLE t (a INT);'' @ [newline] @ ''CREATE TRIGGER tr AFTER UPDATE ON t'' @
      [newline] @ ''BEGIN'' @ [newline] @ ''  UPDATE t SET a = 1;'' @ [newline] @ ''END;'' @
      [newline] @ ''CREATE TABLE u (id INT);''"
  let ?pre = "[''CREATE TABLE t (a INT);'']"
  let ?opener = "''CREATE TRIGGER tr AFTER UPDATE ON t''"
  let ?body = "[''BEGIN'', ''  UPDATE t SET a = 1;'']"
  let ?closer = "''END;''"
  let ?post = "[''CREATE TABLE u (id INT);'']"
  have h1: "split_nl ?sql = ?pre @ ?opener # ?body @ ?closer # ?post" by code_simp
  have h2: "currentStatement (parse_lines parse_init ?pre) = []" by code_simp
  have h3: "opensTrigger ?opener" by code_simp
  have h4: "\<not> closesTrigger ?opener" by code_simp
  have h5a: "\<not> closesTrigger ''BEGIN''" by code_simp
  have h5b: "\<not> closesTrigger ''  UPDATE t SET a = 1;''" by code_simp
  have h5: "\<forall>l\<in>set ?body. \<not> closesTrigger l" using h5a h5b by simp
  have h6: "closesTrigger ?closer" by code_simp
  have h7: "endsWith (trim ''  UPDATE t SET a = 1;'') '';''" by code_simp
  have ev: "statements (parse_lines parse_init ?pre)
     @ [trim (buffered (nonBlankLines (?opener # ?body @ [?closer])))]
     @ parse_finish (parse_lines parse_init ?post)
     = [''CREATE TABLE t (a INT);'',
       ''CREATE TRIGGER tr AFTER UPDATE ON t'' @ [newline] @ ''BEGIN'' @ [newline] @
       ''  UPDATE t SET a = 1;'' @ [newline] @ ''END;'',
       ''CREATE TABLE u (id INT);'']" by code_simp
  have "parseSQL ?sql = [''CREATE TABLE t (a INT);'',
       ''CREATE TRIGGER tr AFTER UPDATE ON t'' @ [newline] @ ''BEGIN'' @ [newline] @
       ''  UPDATE t SET a = 1;'' @ [newline] @ ''END;'',
       ''CREATE TABLE u (id INT);'']"
    using parseSQL_trigger_one_statement [OF h1 h2 h3 h4 h5 h6] ev by (rule trans)
  with h1 h2 h3 h4 h5a h5b h6 h7 show ?thesis by (intro conjI)
qed

text \<open>
  The claim C4 as it is stated fails at this trigger definition of four lines: its third
  line ends in \<^verbatim>\<open>;\<close> and comes before the closing \<^verbatim>\<open>END;\<close>, and the splitter
  returns two statements, the second being the closing line alone.
\<close>

theorem parseSQL_trigger_split_at_inner_end:
  "opensTrigger ''CREATE TRIGGER tr AFTER UPDATE ON t''
   \<and> endsWith (trim ''  UPDATE t SET a = CASE WHEN b THEN 1 ELSE 0 END;'') '';''
   \<and> parseSQL (''CREATE TRIGGER tr AFTER UPDATE ON t'' @ [newline] @ ''BEGIN'' @ [newline] @
        ''  UPDATE t SET a = CASE WHEN b THEN 1 ELSE 0 END;'' @ [newline] @ ''END;'')
      = [''CREATE TRIGGER tr AFTER UPDATE ON t'' @ [newline] @ ''BEGIN'' @ [newline] @
        ''  UPDATE t SET a = CASE WHEN b THEN 1 ELSE 0 END;'', ''END;'']
   \<and> length (parseSQL (''CREATE TRIGGER tr AFTER UPDATE ON t'' @ [newline] @ ''BEGIN'' @
        [newline] @ ''  UPDATE t SET a = CASE WHEN b THEN 1 ELSE 0 END;'' @ [newline] @
        ''END;'')) \<noteq> 1"
  by code_simp

text \<open>
  C9. The closing marker is found by a substring test. From any state of the loop with the
  flag \<^verbatim>\<open>inTrigger\<close> set: as long as no line passes the test (its trimmed text ends with
  \<^verbatim>\<open>;\<close> and, in upper case, includes \<^verbatim>\<open>END;\<close>) the flag stays set, no statement is
  pushed and the non-blank lines are collected in the buffer; the first line \<open>c\<close> that
  passes the test, wherever in the line \<^verbatim>\<open>END;\<close> stands, clears the flag and pushes
  the trimmed buffer, closing line included, as one statement.
\<close>

theorem parse_lines_closing_marker_substring:
  assumes "inTrigger st"
    and "\<forall>l\<in>set body. \<not> closesTrigger l"
    and "endsWith (trim c) '';''" and "includes_str (toUpperCase (trim c)) ''END;''"
  shows "parse_lines st body =
       st\<lparr>currentStatement := currentStatement st @ buffered (nonBlankLines body)\<rparr>
     \<and> parse_lines st (body @ [c]) =
       \<lparr>statements = statements st @
          [trim (currentStatement st @ buffered (nonBlankLines body) @ c @ [newline])],
        currentStatement = [], inTrigger = False\<rparr>"
proof -
  have closes: "closesTrigger c"
    using assms(3,4) by (simp add: closesTrigger_def)
  have body: "parse_lines st body =
       st\<lparr>currentStatement := currentStatement st @ buffered (nonBlankLines body)\<rparr>"
    using assms(1,2) by (rule parse_lines_in_trigger)
  then show ?thesis
    using assms(1) closes by (simp add: parse_lines_append parse_line_closes)
qed

text \<open>
  The theorem at a buffer that holds the first line of a trigger, followed by three body
  lines and by the line \<^verbatim>\<open>SELECT weekend;\<close>, which passes the test because of the end
  of the word \<^verbatim>\<open>weekend\<close>.
\<close>

theorem parse_lines_closing_marker_substring_witness:
  "inTrigger \<lparr>statements = [], currentStatement = ''CREATE TRIGGER tr'' @ [newline],
      inTrigger = True\<rparr>
   \<and> \<not> closesTrigger ''BEGIN'' \<and> \<not> closesTrigger [] \<and> \<not> closesTrigger ''  SELECT 1;''
   \<and> endsWith (trim ''  SELECT weekend;'') '';''
   \<and> includes_str (toUpperCase (trim ''  SELECT weekend;'')) ''END;''
   \<and> parse_lines \<lparr>statements = [], currentStatement = ''CREATE TRIGGER tr'' @ [newline],
        inTrigger = True\<rparr> ([''BEGIN'', [], ''  SELECT 1;''] @ [''  SELECT weekend;''])
      = \<lparr>statements = [''CREATE TRIGGER tr'' @ [newline] @ ''BEGIN'' @ [newline] @
           ''  SELECT 1;'' @ [newline] @ ''  SELECT weekend;''],
         currentStatement = [], inTrigger = False\<rparr>"
proof -
  let ?st = "\<lparr>statements = [], currentStatement = ''CREATE TRIGGER tr'' @ [newline],
      inTrigger = True\<rparr>"
  let ?body = "[''BEGIN'', [], ''  SELECT 1;'']"
  let ?c = "''  SELECT weekend;''"
  have h1: "inTrigger ?st" by simp
  have a: "\<not> closesTrigger ''BEGIN''" by code_simp
  have b: "\<not> closesTrigger []" by code_simp
  have c: "\<not> closesTrigger ''  SELECT 1;''" by code_simp
  have h2: "\<forall>l\<in>set ?body. \<not> closesTrigger l" using a b c by simp
  have h3: "endsWith (trim ?c) '';''" by code_simp
  have h4: "includes_str (toUpperCase (trim ?c)) ''END;''" by code_simp
  have ev: "\<lparr>statements = statements ?st @
          [trim (currentStatement ?st @ buffered (nonBlankLines ?body) @ ?c @ [newline])],
        currentStatement = [], inTrigger = False\<rparr>
     = \<lparr>statements = [''CREATE TRIGGER tr'' @ [newline] @ ''BEGIN'' @ [newline] @
           ''  SELECT 1;'' @ [newline] @ ''  SELECT weekend;''],
         currentStatement = [], inTrigger = False\<rparr>" by code_simp
  have "parse_lines ?st (?body @ [?c]) = \<lparr>statements = [''CREATE TRIGGER tr'' @ [newline] @ ''BEGIN'' @ [newline] @
           ''  SELECT 1;'' @ [newline] @ ''  SELECT weekend;''],
         currentStatement = [], inTrigger = False\<rparr>"
    using parse_lines_closing_marker_substring [OF h1 h2 h3 h4, THEN conjunct2] ev by (rule trans)
  with h1 a b c h3 h4 show ?thesis by (intro conjI)
qed

text \<open>
  C10. \<^verbatim>\<open>parseSQL\<close> is a total function with no branch that throws: it returns a list of
  statements for every text. No returned statement is empty after trimming. The lines of the
  returned statements, each trimmed and taken in order, are exactly the non-blank lines of
  the text, each trimmed and taken in order: every non-blank line of the text stands in
  exactly one statement, in the order of the text, and a blank line, whether between
  statements or inside the body of a trigger, stands in none. (Lines are compared after
  trimming because a statement is trimmed as a whole, which removes the white space before
  its first line and after its last.) In full: the non-blank lines of the text fall into
  consecutive groups, none empty, and the statements are, in order, what the buffer holds
  after the lines of a group, trimmed.
\<close>

theorem parseSQL_keeps_non_blank_lines:
  "[] \<notin> set (map trim (parseSQL sql))
   \<and> concat (map trimmedLines (parseSQL sql)) = map trim (nonBlankLines (split_nl sql))
   \<and> (\<exists>gs. parseSQL sql = map (\<lambda>g. trim (buffered g)) gs \<and> [] \<notin> set gs
          \<and> concat gs = nonBlankLines (split_nl sql))"
proof -
  obtain gs where g: "parseSQL sql = map (\<lambda>g. trim (buffered g)) gs" "[] \<notin> set gs"
    "concat gs = nonBlankLines (split_nl sql)"
    using parseSQL_groups by blast
  have lines: "\<forall>l\<in>set g. \<not> isBlank l \<and> newline \<notin> set l" if "g \<in> set gs" for g
  proof
    fix l assume "l \<in> set g"
    with that have "l \<in> set (concat gs)" by auto
    then have "l \<in> set (nonBlankLines (split_nl sql))" by (simp only: g(3))
    then show "\<not> isBlank l \<and> newline \<notin> set l"
      using nonBlankLines_not_blank nonBlankLines_subset split_nl_lines_no_newline by blast
  qed
  have a: "trimmedLines (trim (buffered g)) = map trim g" if "g \<in> set gs" for g
    using that lines [OF that] g(2) by (intro trimmedLines_group) auto
  have b: "trim (trim (buffered g)) \<noteq> []" if "g \<in> set gs" for g
    using that lines [OF that] g(2) trim_buffered_not_Nil [of g] by (auto simp: trim_idem)
  have "concat (map trimmedLines (parseSQL sql)) = concat (map (map trim) gs)"
    using a by (simp add: g(1) comp_def cong: map_cong)
  also have "\<dots> = map trim (concat gs)" by (simp add: map_concat)
  finally have "concat (map trimmedLines (parseSQL sql)) = map trim (nonBlankLines (split_nl sql))"
    by (simp add: g(3))
  moreover have "[] \<notin> set (map trim (parseSQL sql))"
  proof
    assume "[] \<in> set (map trim (parseSQL sql))"
    then obtain g where "g \<in> set gs" "trim (trim (buffered g)) = []"
      unfolding g(1) by auto
    with b show False by blast
  qed
  moreover have "\<exists>gs. parseSQL sql = map (\<lambda>g. trim (buffered g)) gs \<and> [] \<notin> set gs
      \<and> concat gs = nonBlankLines (split_nl sql)"
    using g by blast
  ultimately show ?thesis by simp
qed

section \<open>Lemmas about the runner\<close>

lemma sql_max_eq: "sql_max vs = (if vs = [] then None else Some (Max (set vs)))"
  by (induction vs) (auto simp: max_def Max_insert2 split: option.splits)

lemma getCurrentVersion_eq:
  "getCurrentVersion d =
     (if recorded_versions d = [] then 0 else js_number (Max (set (recorded_versions d))))"
  by (auto simp: getCurrentVersion_def select_max_version_def recorded_versions_def
      bookkeeping_rows_def sql_max_eq split: option.splits)

lemma js_number_zero [simp]: "js_number 0 = 0"
  by (simp add: js_number_safe)

lemma getCurrentVersion_fixed: "js_number (getCurrentVersion d) = getCurrentVersion d"
  by (simp add: getCurrentVersion_eq js_number_idem)

lemma versionNumber_fixed: "js_number (versionNumber m) = versionNumber m"
  by (simp add: versionNumber_def js_number_idem)

lemma versionNumber_le_current:
  assumes "version m \<le> getCurrentVersion d"
  shows "versionNumber m \<le> getCurrentVersion d"
proof -
  from assms have "js_number (version m) \<le> js_number (getCurrentVersion d)"
    by (rule js_number_mono)
  then show ?thesis by (simp add: versionNumber_def getCurrentVersion_fixed)
qed

lemma recorded_below_pending:
  assumes "u \<in> set (recorded_versions d)" and "getCurrentVersion d < versionNumber m"
  shows "u < versionNumber m"
proof -
  let ?R = "set (recorded_versions d)"
  have ne: "recorded_versions d \<noteq> []" using assms(1) by auto
  then have cur: "getCurrentVersion d = js_number (Max ?R)"
    by (simp add: getCurrentVersion_eq)
  have "Max ?R < versionNumber m"
  proof (rule ccontr)
    assume "\<not> Max ?R < versionNumber m"
    then have "js_number (versionNumber m) \<le> js_number (Max ?R)"
      by (intro js_number_mono) simp
    with assms(2) show False by (simp add: cur versionNumber_fixed)
  qed
  moreover have "u \<le> Max ?R" using assms(1) by simp
  ultimately show ?thesis by simp
qed

lemma getCurrentVersion_init [simp]:
  "getCurrentVersion (initMigrationsTable (pragma_foreign_keys_on d)) = getCurrentVersion d"
  by (simp add: getCurrentVersion_def select_max_version_def initMigrationsTable_def
      pragma_foreign_keys_on_def split: option.splits)

lemma bookkeeping_rows_init [simp]:
  "bookkeeping_rows (initMigrationsTable (pragma_foreign_keys_on d)) = bookkeeping_rows d"
  by (simp add: bookkeeping_rows_def initMigrationsTable_def pragma_foreign_keys_on_def
      split: option.splits)

lemma schema_init [simp]:
  "schema (initMigrationsTable (pragma_foreign_keys_on d)) = schema d"
  by (simp add: initMigrationsTable_def pragma_foreign_keys_on_def split: option.splits)

lemma invoked_append [simp]: "invoked (xs @ ys) = invoked xs @ invoked ys"
  by (induction xs rule: invoked.induct) auto

lemma migration_body_fails_iff:
  "fst (migration_body m d) = Some e \<longleftrightarrow>
     (\<exists>d'. up m d = (Some e, d')) \<or>
     (\<exists>d' d''. up m d = (None, d') \<and>
        insert_migration (versionNumber m) (name m) d' = (Some e, d''))"
  by (cases "up m d"; cases "fst (up m d)")
     (auto simp: migration_body_def split: prod.splits option.splits)

lemma invoked_migration_body [simp]:
  "invoked (snd (snd (migration_body m d))) = [version m]"
  by (auto simp: migration_body_def split: prod.splits option.splits)

lemma transaction_fails:
  "fst (fn d) = Some e \<Longrightarrow>
   transaction fn d = (Some e, d, [Begin] @ snd (snd (fn d)) @ [Rollback])"
  by (auto simp: transaction_def split: prod.splits option.splits)

lemma transaction_commits:
  "fst (fn d) = None \<Longrightarrow>
   transaction fn d = (None, fst (snd (fn d)), [Begin] @ snd (snd (fn d)) @ [Commit])"
  by (auto simp: transaction_def split: prod.splits option.splits)

lemma run_pending_append:
  "run_pending (pre @ ms) d =
     (case run_pending pre d of
        (Some e, d', evs) \<Rightarrow> (Some e, d', evs)
      | (None, d', evs) \<Rightarrow>
          (case run_pending ms d' of (r, d'', evs') \<Rightarrow> (r, d'', evs @ evs')))"
  by (induction pre arbitrary: d) (auto split: prod.splits option.splits)

lemma run_pending_success_invoked:
  "run_pending ms d = (None, d', evs) \<Longrightarrow> invoked evs = map version ms"
proof (induction ms arbitrary: d evs)
  case Nil
  then show ?case by simp
next
  case (Cons m ms)
  from Cons.prems obtain d1 evs1 evs2 where
    tx: "transaction (migration_body m) d = (None, d1, evs1)"
    and rest: "run_pending ms d1 = (None, d', evs2)" and evs: "evs = evs1 @ evs2"
    by (auto split: prod.splits option.splits)
  from tx have "fst (migration_body m d) = None"
    by (auto simp: transaction_def split: prod.splits option.splits)
  from transaction_commits [of "migration_body m" d, OF this] tx have "invoked evs1 = [version m]" by simp
  with Cons.IH [OF rest] evs show ?case by simp
qed

lemma pendingMigrations_Nil_iff:
  "pendingMigrations migrations c = [] \<longleftrightarrow> (\<forall>m\<in>set migrations. versionNumber m \<le> c)"
  by (auto simp: pendingMigrations_def filter_empty_conv)

lemma runMigrations_eq_run_pending:
  "runMigrations migrations d =
     run_pending (pendingMigrations migrations (getCurrentVersion d))
       (initMigrationsTable (pragma_foreign_keys_on d))"
  by (cases "pendingMigrations migrations (getCurrentVersion d)")
     (simp_all add: runMigrations_def Let_def)

lemma runMigrations_no_pending_number:
  "\<forall>m\<in>set migrations. versionNumber m \<le> getCurrentVersion d \<Longrightarrow>
   runMigrations migrations d = (None, initMigrationsTable (pragma_foreign_keys_on d), [])"
  by (simp add: runMigrations_eq_run_pending pendingMigrations_Nil_iff [THEN iffD2])

lemma recorded_versions_init [simp]:
  "recorded_versions (initMigrationsTable (pragma_foreign_keys_on d)) = recorded_versions d"
  by (simp add: recorded_versions_def)

lemma insert_migration_recorded:
  "insert_migration v n d = (None, d') \<Longrightarrow> recorded_versions d' = recorded_versions d @ [v]"
  by (auto simp: insert_migration_def recorded_versions_def bookkeeping_rows_def
      split: option.splits if_splits)

lemma recorded_versions_cong:
  "migrations_table d' = migrations_table d \<Longrightarrow> recorded_versions d' = recorded_versions d"
  by (simp add: recorded_versions_def bookkeeping_rows_def)

lemma transaction_rolled_back:
  "transaction fn d = (Some e, d', evs) \<Longrightarrow> d' = d"
  by (auto simp: transaction_def split: prod.splits option.splits)

lemma transaction_committed:
  "transaction (migration_body m) d = (None, d', evs) \<Longrightarrow>
   \<exists>da. up m d = (None, da) \<and> insert_migration (versionNumber m) (name m) da = (None, d')"
  by (auto simp: transaction_def migration_body_def split: prod.splits option.splits)

lemma run_pending_recorded:
  assumes "\<forall>m\<in>set ms. preserves_bookkeeping (up m)"
  shows "\<exists>k\<le>length ms. recorded_versions (fst (snd (run_pending ms d)))
           = recorded_versions d @ map versionNumber (take k ms)"
  using assms
proof (induction ms arbitrary: d)
  case Nil
  then show ?case by simp
next
  case (Cons m ms)
  obtain r d1 evs where tx: "transaction (migration_body m) d = (r, d1, evs)"
    by (cases "transaction (migration_body m) d") auto
  show ?case
  proof (cases r)
    case (Some e)
    with tx have "d1 = d" by (auto dest: transaction_rolled_back)
    with tx Some have "recorded_versions (fst (snd (run_pending (m # ms) d)))
        = recorded_versions d @ map versionNumber (take 0 (m # ms))"
      by simp
    then show ?thesis by blast
  next
    case None
    with tx obtain da where da: "up m d = (None, da)"
      "insert_migration (versionNumber m) (name m) da = (None, d1)"
      by (auto dest: transaction_committed)
    from da(1) Cons.prems have "migrations_table da = migrations_table d"
      by (auto simp: preserves_bookkeeping_def)
    then have rec1: "recorded_versions d1 = recorded_versions d @ [versionNumber m]"
      using insert_migration_recorded [OF da(2)] recorded_versions_cong by metis
    from Cons.prems have "\<forall>m\<in>set ms. preserves_bookkeeping (up m)" by simp
    from Cons.IH [OF this, of d1] obtain k where k: "k \<le> length ms"
      "recorded_versions (fst (snd (run_pending ms d1)))
         = recorded_versions d1 @ map versionNumber (take k ms)" by blast
    have "fst (snd (run_pending (m # ms) d)) = fst (snd (run_pending ms d1))"
      using tx None by (simp split: prod.splits)
    with k rec1 have "recorded_versions (fst (snd (run_pending (m # ms) d)))
        = recorded_versions d @ map versionNumber (take (Suc k) (m # ms))"
      by simp
    moreover have "Suc k \<le> length (m # ms)" using k(1) by simp
    ultimately show ?thesis by blast
  qed
qed

lemma run_pending_success_recorded:
  assumes "\<forall>m\<in>set ms. preserves_bookkeeping (up m)"
    and "run_pending ms d = (None, d', evs)"
  shows "recorded_versions d' = recorded_versions d @ map versionNumber ms"
  using assms
proof (induction ms arbitrary: d evs)
  case Nil
  then show ?case by simp
next
  case (Cons m ms)
  from Cons.prems(2) obtain d1 evs1 evs2 where
    tx: "transaction (migration_body m) d = (None, d1, evs1)"
    and rest: "run_pending ms d1 = (None, d', evs2)"
    by (auto split: prod.splits option.splits)
  from tx obtain da where da: "up m d = (None, da)"
    "insert_migration (versionNumber m) (name m) da = (None, d1)"
    by (auto dest: transaction_committed)
  from da(1) Cons.prems(1) have "migrations_table da = migrations_table d"
    by (auto simp: preserves_bookkeeping_def)
  then have "recorded_versions d1 = recorded_versions d @ [versionNumber m]"
    using insert_migration_recorded [OF da(2)] recorded_versions_cong by metis
  moreover from Cons.prems(1) have "\<forall>m\<in>set ms. preserves_bookkeeping (up m)" by simp
  from Cons.IH [OF this rest]
  have "recorded_versions d' = recorded_versions d1 @ map versionNumber ms" .
  ultimately show ?case by simp
qed

lemma sorted_filter_split:
  fixes f :: "'a \<Rightarrow> int"
  shows "sorted (map f xs) \<Longrightarrow>
    xs = filter (\<lambda>x. f x \<le> c) xs @ filter (\<lambda>x. c < f x) xs"
proof (induction xs)
  case Nil
  then show ?case by simp
next
  case (Cons x xs)
  show ?case
  proof (cases "f x \<le> c")
    case True
    with Cons show ?thesis by simp
  next
    case False
    with Cons.prems have "\<forall>y\<in>set xs. c < f y" by auto
    then have "filter (\<lambda>x. f x \<le> c) xs = []" "filter (\<lambda>x. c < f x) xs = xs"
      by (auto simp: filter_empty_conv filter_id_conv)
    with False show ?thesis by simp
  qed
qed

lemma prefix_closed_sorted_prefix:
  "sorted (xs @ ys) \<Longrightarrow> set r = set xs \<Longrightarrow> prefix_closed (xs @ ys) r"
  by (fastforce simp: prefix_closed_def sorted_append)

lemma recorded_up_to_current:
  assumes pos: "\<forall>u\<in>set vs. 0 < u"
    and num: "\<forall>u\<in>set vs. js_number u = u"
    and inv: "prefix_closed vs (recorded_versions d)"
  shows "set (recorded_versions d) = {u \<in> set vs. u \<le> getCurrentVersion d}"
proof (cases "recorded_versions d = []")
  case True
  with pos show ?thesis by (auto simp: getCurrentVersion_eq)
next
  case False
  let ?R = "set (recorded_versions d)"
  have fin: "finite ?R" "?R \<noteq> {}" using False by auto
  have mx: "Max ?R \<in> ?R" using fin by (rule Max_in)
  with inv have "Max ?R \<in> set vs" by (auto simp: prefix_closed_def)
  with num have "js_number (Max ?R) = Max ?R" by simp
  then have cur: "getCurrentVersion d = Max ?R"
    using False by (simp add: getCurrentVersion_eq)
  show ?thesis
  proof (intro set_eqI iffI)
    fix u assume "u \<in> ?R"
    then show "u \<in> {u \<in> set vs. u \<le> getCurrentVersion d}"
      using inv fin by (auto simp: cur prefix_closed_def)
  next
    fix u assume "u \<in> {u \<in> set vs. u \<le> getCurrentVersion d}"
    then have u: "u \<in> set vs" "u \<le> Max ?R" by (auto simp: cur)
    show "u \<in> ?R"
    proof (cases "u = Max ?R")
      case True
      with mx show ?thesis by simp
    next
      case False
      with u have "u < Max ?R" by simp
      with inv mx u(1) show ?thesis unfolding prefix_closed_def by blast
    qed
  qed
qed

lemma run_pending_last_recorded:
  assumes "run_pending (ms @ [m]) d = (None, d', evs)"
  shows "versionNumber m \<in> set (recorded_versions d')"
proof -
  from assms obtain d1 evs1 evs2 where "run_pending ms d = (None, d1, evs1)"
    and "run_pending [m] d1 = (None, d', evs2)"
    by (auto simp: run_pending_append split: prod.splits option.splits)
  then obtain evs3 where "transaction (migration_body m) d1 = (None, d', evs3)"
    by (auto split: prod.splits option.splits)
  then obtain da where "insert_migration (versionNumber m) (name m) da = (None, d')"
    by (auto dest: transaction_committed)
  then show ?thesis by (simp add: insert_migration_recorded)
qed

lemma preserves_bookkeeping_create_table: "preserves_bookkeeping (create_table t)"
  by (auto simp: preserves_bookkeeping_def create_table_def)

lemma preserves_bookkeeping_create_table_then_throw:
  "preserves_bookkeeping (create_table_then_throw t e)"
  by (simp add: preserves_bookkeeping_def create_table_then_throw_def)

section \<open>Claims about the version store, the runner and the migrations\<close>

text \<open>
  C6, as the code has it. The claim is that \<^verbatim>\<open>getCurrentVersion\<close> returns the greatest
  version recorded, for every state of the database. The greatest version reaches
  JavaScript as a number, so a recorded version beyond \<open>2\<^sup>5\<^sup>3\<close> comes back rounded
  (the counterexample below). What holds: when the bookkeeping table is absent, which is
  when the reading fails, the result is zero, and no error leaves the function, whose
  result is a number in every case; when the table has no row the result is zero; and when
  it has rows the result is the number nearest to the greatest recorded version, which is
  that version itself when it lies between \<open>-2\<^sup>5\<^sup>3\<close> and \<open>2\<^sup>5\<^sup>3\<close>.
\<close>

theorem getCurrentVersion_max_as_number:
  "getCurrentVersion d =
     (case migrations_table d of
        None \<Rightarrow> 0
      | Some rows \<Rightarrow> if rows = [] then 0 else js_number (Max (set (map fst rows))))
   \<and> isl (select_max_version d) = (migrations_table d = None)
   \<and> (migrations_table d = Some rows \<and> rows \<noteq> []
        \<and> - 9007199254740992 \<le> Max (set (map fst rows))
        \<and> Max (set (map fst rows)) \<le> 9007199254740992
      \<longrightarrow> getCurrentVersion d = Max (set (map fst rows)))"
proof -
  have eq: "getCurrentVersion d =
     (case migrations_table d of
        None \<Rightarrow> 0
      | Some rows \<Rightarrow> if rows = [] then 0 else js_number (Max (set (map fst rows))))"
    by (simp add: getCurrentVersion_eq recorded_versions_def bookkeeping_rows_def
        split: option.splits)
  have fails: "isl (select_max_version d) = (migrations_table d = None)"
    by (simp add: select_max_version_def split: option.splits)
  have "getCurrentVersion d = Max (set (map fst rows))"
    if "migrations_table d = Some rows" "rows \<noteq> []"
      "- 9007199254740992 \<le> Max (set (map fst rows))"
      "Max (set (map fst rows)) \<le> 9007199254740992"
    using that by (simp add: eq js_number_safe)
  with eq fails show ?thesis by blast
qed

text \<open>
  The theorem at a table with the versions 1 and 3, and at a database without the table.
\<close>

theorem getCurrentVersion_max_as_number_witness:
  "getCurrentVersion
     \<lparr>foreign_keys = True, migrations_table = Some [(1, ''one''), (3, ''three'')],
      schema = [''a'', ''c'']\<rparr> = 3
   \<and> Max (set (map fst [(1 :: int, ''one''), (3, ''three'')])) = 3
   \<and> isl (select_max_version fresh_database)
   \<and> getCurrentVersion fresh_database = 0"
proof -
  let ?rows = "[(1 :: int, ''one''), (3, ''three'')]"
  let ?d = "\<lparr>foreign_keys = True, migrations_table = Some ?rows,
      schema = [''a'', ''c'']\<rparr> :: string list database"
  have mx: "Max (set (map fst ?rows)) = 3" by simp
  note inst = getCurrentVersion_max_as_number [of ?d ?rows]
  from inst mx have a: "getCurrentVersion ?d = 3" by simp
  note inst' = getCurrentVersion_max_as_number [of fresh_database "[]"]
  from inst' have b: "isl (select_max_version fresh_database)"
    by (simp add: fresh_database_def)
  from inst' have c: "getCurrentVersion fresh_database = 0"
    by (simp add: fresh_database_def)
  from a mx b c show ?thesis by (intro conjI)
qed

text \<open>
  The claim C6 as it is stated fails at a table whose only row has the version
  \<open>2\<^sup>5\<^sup>3 + 1\<close>: the result is \<open>2\<^sup>5\<^sup>3\<close>, not the greatest version recorded.
\<close>

theorem getCurrentVersion_rounds_large_version:
  "getCurrentVersion
     \<lparr>foreign_keys = True, migrations_table = Some [(9007199254740993, ''large'')],
      schema = ([] :: string list)\<rparr> = 9007199254740992
   \<and> Max (set (map fst [(9007199254740993 :: int, ''large'')])) = 9007199254740993"
proof -
  have "getCurrentVersion
     \<lparr>foreign_keys = True, migrations_table = Some [(9007199254740993, ''large'')],
      schema = ([] :: string list)\<rparr> = 9007199254740992"
    by code_simp
  then show ?thesis by simp
qed

text \<open>
  C7. When no version of the registry exceeds the current version, \<^verbatim>\<open>runMigrations\<close>
  returns without error and with no event at all: it opens no transaction, invokes no
  action and runs no insert into the bookkeeping table. The rows of the bookkeeping table
  and the rest of the database are as before; the run has only set the connection setting
  and made sure the bookkeeping table exists.
\<close>

theorem runMigrations_nothing_pending:
  assumes "\<forall>m\<in>set migrations. version m \<le> getCurrentVersion d"
  shows "runMigrations migrations d = (None, initMigrationsTable (pragma_foreign_keys_on d), [])
    \<and> bookkeeping_rows (fst (snd (runMigrations migrations d))) = bookkeeping_rows d
    \<and> schema (fst (snd (runMigrations migrations d))) = schema d"
proof -
  have "pendingMigrations migrations
      (getCurrentVersion (initMigrationsTable (pragma_foreign_keys_on d))) = []"
    using assms by (simp add: pendingMigrations_Nil_iff versionNumber_le_current)
  then have "runMigrations migrations d =
      (None, initMigrationsTable (pragma_foreign_keys_on d), [])"
    by (simp add: runMigrations_def Let_def)
  then show ?thesis by simp
qed

text \<open>
  The theorem at a registry with the versions 1 and 3 and a database that records both.
\<close>

theorem runMigrations_nothing_pending_witness:
  "list_all (\<lambda>m. version m \<le> getCurrentVersion
       \<lparr>foreign_keys = False, migrations_table = Some [(1, ''one''), (3, ''three'')],
        schema = [''a'', ''c'']\<rparr>) registry_succeeding
   \<and> runMigrations registry_succeeding
       \<lparr>foreign_keys = False, migrations_table = Some [(1, ''one''), (3, ''three'')],
        schema = [''a'', ''c'']\<rparr>
     = (None, \<lparr>foreign_keys = True, migrations_table = Some [(1, ''one''), (3, ''three'')],
        schema = [''a'', ''c'']\<rparr>, [])"
proof -
  let ?d = "\<lparr>foreign_keys = False, migrations_table = Some [(1, ''one''), (3, ''three'')],
        schema = [''a'', ''c'']\<rparr> :: string list database"
  have cur: "getCurrentVersion ?d = 3"
    by code_simp
  have h: "\<forall>m\<in>set registry_succeeding. version m \<le> getCurrentVersion ?d"
    by (simp add: cur registry_succeeding_def)
  have ev: "initMigrationsTable (pragma_foreign_keys_on ?d) =
      \<lparr>foreign_keys = True, migrations_table = Some [(1, ''one''), (3, ''three'')],
        schema = [''a'', ''c'']\<rparr>"
    by (simp add: initMigrationsTable_def pragma_foreign_keys_on_def)
  from runMigrations_nothing_pending [OF h] have "runMigrations registry_succeeding ?d =
      (None, initMigrationsTable (pragma_foreign_keys_on ?d), [])" by (rule conjunct1)
  with h ev show ?thesis by (simp add: list_all_iff)
qed

text \<open>
  C1, as the code has it. The claim is made for every registry. Two parts of it need more:
  in a registry that is out of order a migration with a greater version has run before the
  one that fails, and a row for the failed version is in the table after the run when the
  version stands twice in the registry or when an earlier action wrote that row (the
  counterexample below). What holds, for every registry and every database: let the
  pending migrations of a run be \<open>pre\<close>, then \<open>m\<close>, then \<open>post\<close>; let the migrations of
  \<open>pre\<close> go through and leave the database \<open>d1\<close>; and let, from \<open>d1\<close>, the action of
  \<open>m\<close> throw \<open>e\<close>, or the action return and the bookkeeping insert for \<open>m\<close> throw
  \<open>e\<close>. Then the run ends with the error \<open>e\<close> (it is passed on to the caller) and with
  the database \<open>d1\<close>, exactly as it was when the transaction of \<open>m\<close> began: nothing the
  action did and no row the transaction wrote is left. The actions invoked are those of
  \<open>pre\<close> and of \<open>m\<close>, once each: no migration of \<open>post\<close> is attempted. When the
  registry is sorted by version, the run invokes no action of a version greater than that
  of \<open>m\<close>. When the versions of the registry are strictly ascending and the actions of
  \<open>pre\<close> leave the bookkeeping table alone, every version recorded after the run is less
  than that of \<open>m\<close>: there is no row for it nor for a greater version.
\<close>

theorem runMigrations_failure_rolls_back:
  assumes pend: "pendingMigrations migrations
        (getCurrentVersion (initMigrationsTable (pragma_foreign_keys_on d))) = pre @ m # post"
    and pre: "run_pending pre (initMigrationsTable (pragma_foreign_keys_on d)) = (None, d1, evs)"
    and fail: "(\<exists>d'. up m d1 = (Some e, d')) \<or>
       (\<exists>d' d''. up m d1 = (None, d') \<and>
          insert_migration (versionNumber m) (name m) d' = (Some e, d''))"
  shows "runMigrations migrations d =
       (Some e, d1, evs @ [Begin] @ snd (snd (migration_body m d1)) @ [Rollback])
    \<and> invoked (snd (snd (runMigrations migrations d))) = map version pre @ [version m]
    \<and> (sorted (map version migrations) \<longrightarrow>
         (\<forall>u\<in>set (invoked (snd (snd (runMigrations migrations d)))). u \<le> version m))
    \<and> (sorted_wrt (<) (map versionNumber migrations)
          \<and> (\<forall>p\<in>set pre. preserves_bookkeeping (up p)) \<longrightarrow>
         (\<forall>u\<in>set (recorded_versions (fst (snd (runMigrations migrations d)))).
            u < versionNumber m))"
proof -
  let ?d0 = "initMigrationsTable (pragma_foreign_keys_on d)"
  let ?pending = "pendingMigrations migrations (getCurrentVersion ?d0)"
  have f: "fst (migration_body m d1) = Some e"
    using fail by (simp add: migration_body_fails_iff)
  have "run_pending (m # post) d1 =
      (Some e, d1, [Begin] @ snd (snd (migration_body m d1)) @ [Rollback])"
    by (simp add: transaction_fails [of "migration_body m" d1 e, OF f])
  then have "run_pending (pre @ m # post) ?d0 =
      (Some e, d1, evs @ [Begin] @ snd (snd (migration_body m d1)) @ [Rollback])"
    by (simp only: run_pending_append pre prod.case option.case)
  then have run: "runMigrations migrations d =
      (Some e, d1, evs @ [Begin] @ snd (snd (migration_body m d1)) @ [Rollback])"
    using pend by (simp add: runMigrations_def Let_def)
  have inv: "invoked (snd (snd (runMigrations migrations d))) = map version pre @ [version m]"
    using run run_pending_success_invoked [OF pre] by simp
  have order: "\<forall>u\<in>set (map version pre @ [version m]). u \<le> version m"
    if "sorted (map version migrations)"
  proof -
    from that have "sorted (map version ?pending)"
      unfolding pendingMigrations_def by (rule sorted_filter)
    moreover have "map version ?pending = map version pre @ version m # map version post"
      by (simp only: pend map_append list.map)
    ultimately have "sorted (map version pre @ version m # map version post)"
      by (simp only:)
    then show ?thesis by (auto simp: sorted_append)
  qed
  have rows: "\<forall>u\<in>set (recorded_versions d1). u < versionNumber m"
    if strict: "sorted_wrt (<) (map versionNumber migrations)"
      and frame: "\<forall>p\<in>set pre. preserves_bookkeeping (up p)"
  proof -
    have rec: "recorded_versions d1 = recorded_versions d @ map versionNumber pre"
      using run_pending_success_recorded [OF frame pre] by simp
    have "m \<in> set ?pending" by (simp only: pend) simp
    then have "getCurrentVersion ?d0 < versionNumber m"
      by (simp add: pendingMigrations_def)
    then have old: "\<forall>u\<in>set (recorded_versions d). u < versionNumber m"
      using recorded_below_pending [of _ ?d0 m] by simp
    from strict have "sorted_wrt (\<lambda>x y. versionNumber x < versionNumber y) migrations"
      by (simp add: sorted_wrt_map)
    then have "sorted_wrt (\<lambda>x y. versionNumber x < versionNumber y) ?pending"
      unfolding pendingMigrations_def by (rule sorted_wrt_filter)
    then have "sorted_wrt (\<lambda>x y. versionNumber x < versionNumber y) (pre @ m # post)"
      by (simp only: pend)
    then have "\<forall>p\<in>set pre. versionNumber p < versionNumber m"
      by (simp add: sorted_wrt_append)
    with old rec show ?thesis by auto
  qed
  from run inv order rows show ?thesis by simp
qed

text \<open>
  The theorem at a registry of three migrations whose second action creates a table and
  then throws, on a fresh database: the table of the second action is gone, the first
  migration stays recorded, the third is not attempted, and no row of version 2 or more is
  in the table.
\<close>

theorem runMigrations_failure_rolls_back_witness:
  "pendingMigrations registry_failing_second
      (getCurrentVersion (initMigrationsTable (pragma_foreign_keys_on fresh_database)))
     = [\<lparr>version = 1, name = ''one'', up = create_table ''a''\<rparr>]
       @ \<lparr>version = 2, name = ''two'', up = create_table_then_throw ''b'' (Thrown ''boom'')\<rparr>
       # [\<lparr>version = 3, name = ''three'', up = create_table ''c''\<rparr>]
   \<and> run_pending [\<lparr>version = 1, name = ''one'', up = create_table ''a''\<rparr>]
        (initMigrationsTable (pragma_foreign_keys_on fresh_database))
     = (None, \<lparr>foreign_keys = True, migrations_table = Some [(1, ''one'')], schema = [''a'']\<rparr>,
        [Begin, Invoke 1, Insert 1, Commit])
   \<and> create_table_then_throw ''b'' (Thrown ''boom'')
        \<lparr>foreign_keys = True, migrations_table = Some [(1, ''one'')], schema = [''a'']\<rparr>
     = (Some (Thrown ''boom''),
        \<lparr>foreign_keys = True, migrations_table = Some [(1, ''one'')], schema = [''a'', ''b'']\<rparr>)
   \<and> runMigrations registry_failing_second fresh_database
     = (Some (Thrown ''boom''),
        \<lparr>foreign_keys = True, migrations_table = Some [(1, ''one'')], schema = [''a'']\<rparr>,
        [Begin, Invoke 1, Insert 1, Commit, Begin, Invoke 2, Rollback])
   \<and> invoked (snd (snd (runMigrations registry_failing_second fresh_database))) = [1, 2]
   \<and> sorted (map version registry_failing_second)
   \<and> list_all (\<lambda>u. u \<le> 2)
        (invoked (snd (snd (runMigrations registry_failing_second fresh_database))))
   \<and> sorted_wrt (<) (map versionNumber registry_failing_second)
   \<and> preserves_bookkeeping (create_table ''a'')
   \<and> list_all (\<lambda>u. u < 2)
        (recorded_versions (fst (snd (runMigrations registry_failing_second fresh_database))))"
proof -
  let ?m1 = "\<lparr>version = 1, name = ''one'', up = create_table ''a''\<rparr>"
  let ?m2 = "\<lparr>version = 2, name = ''two'', up = create_table_then_throw ''b'' (Thrown ''boom'')\<rparr>"
  let ?m3 = "\<lparr>version = 3, name = ''three'', up = create_table ''c''\<rparr>"
  let ?d1 = "\<lparr>foreign_keys = True, migrations_table = Some [(1, ''one'')], schema = [''a'']\<rparr>"
  let ?d0 = "initMigrationsTable (pragma_foreign_keys_on fresh_database)"
  have num: "versionNumber ?m1 = 1" "versionNumber ?m2 = 2" "versionNumber ?m3 = 3"
    by (simp_all add: versionNumber_def js_number_safe)
  have cur: "getCurrentVersion ?d0 = 0"
    by (simp add: getCurrentVersion_def select_max_version_def initMigrationsTable_def
        pragma_foreign_keys_on_def fresh_database_def)
  have h1: "pendingMigrations registry_failing_second (getCurrentVersion ?d0)
      = [?m1] @ ?m2 # [?m3]"
    unfolding cur by (simp add: pendingMigrations_def registry_failing_second_def num)
  have h2: "run_pending [?m1] ?d0 = (None, ?d1, [Begin, Invoke 1, Insert 1, Commit])"
    by (simp add: transaction_def migration_body_def create_table_def insert_migration_def
        initMigrationsTable_def pragma_foreign_keys_on_def fresh_database_def num)
  have up2: "create_table_then_throw ''b'' (Thrown ''boom'') ?d1
      = (Some (Thrown ''boom''),
         \<lparr>foreign_keys = True, migrations_table = Some [(1, ''one'')], schema = [''a'', ''b'']\<rparr>)"
    by (simp add: create_table_then_throw_def)
  have h3: "(\<exists>d'. up ?m2 ?d1 = (Some (Thrown ''boom''), d')) \<or>
       (\<exists>d' d''. up ?m2 ?d1 = (None, d') \<and>
          insert_migration (versionNumber ?m2) (name ?m2) d' = (Some (Thrown ''boom''), d''))"
    by (simp add: up2)
  have body: "snd (snd (migration_body ?m2 ?d1)) = [Invoke 2]"
    by (simp add: migration_body_def up2)
  have srt: "sorted (map version registry_failing_second)"
    by (simp add: registry_failing_second_def)
  have strict: "sorted_wrt (<) (map versionNumber registry_failing_second)"
    by (simp add: registry_failing_second_def num)
  have frame: "preserves_bookkeeping (create_table ''a'')"
    by (rule preserves_bookkeeping_create_table)
  then have frame': "\<forall>p\<in>set [?m1]. preserves_bookkeeping (up p)" by simp
  note inst = runMigrations_failure_rolls_back [OF h1 h2 h3]
  from inst body have run: "runMigrations registry_failing_second fresh_database
     = (Some (Thrown ''boom''), ?d1, [Begin, Invoke 1, Insert 1, Commit, Begin, Invoke 2, Rollback])"
    by simp
  from inst have inv: "invoked (snd (snd (runMigrations registry_failing_second fresh_database)))
      = [1, 2]" by simp
  from inst srt have le: "\<forall>u\<in>set (invoked (snd (snd (runMigrations registry_failing_second
      fresh_database)))). u \<le> version ?m2" by blast
  then have le': "list_all (\<lambda>u. u \<le> 2)
        (invoked (snd (snd (runMigrations registry_failing_second fresh_database))))"
    by (simp add: list_all_iff)
  from inst strict frame' have "\<forall>u\<in>set (recorded_versions (fst (snd (runMigrations
      registry_failing_second fresh_database)))). u < versionNumber ?m2" by blast
  then have rows: "list_all (\<lambda>u. u < 2)
        (recorded_versions (fst (snd (runMigrations registry_failing_second fresh_database))))"
    by (simp add: list_all_iff num)
  from h1 h2 up2 run inv srt le' strict frame rows show ?thesis by (intro conjI)
qed

text \<open>
  The claim C1 as it is stated fails at three registries, on a fresh database. Out of
  order, with the versions 2 and 1: the action of version 1 throws, and the migration of
  version 2, which is greater, has been attempted in that run. With the version 1 twice:
  the insert of the second migration throws, and a row for version 1 is in the table after
  the run. With a first action that writes a row for version 2 itself: the action of
  version 2 throws, and a row for version 2 is in the table after the run.
\<close>

theorem runMigrations_failure_greater_version_and_row:
  "runMigrations registry_unsorted fresh_database
     = (Some (Thrown ''boom''),
        \<lparr>foreign_keys = True, migrations_table = Some [(2, ''two'')], schema = [''a'']\<rparr>,
        [Begin, Invoke 2, Insert 2, Commit, Begin, Invoke 1, Rollback])
   \<and> invoked [Begin, Invoke 2, Insert 2, Commit, Begin, Invoke 1, Rollback] = [2, 1]
   \<and> runMigrations registry_duplicate fresh_database
     = (Some (SqliteError ''UNIQUE constraint failed: migrations.version''),
        \<lparr>foreign_keys = True, migrations_table = Some [(1, ''one'')], schema = [''a'']\<rparr>,
        [Begin, Invoke 1, Insert 1, Commit, Begin, Invoke 1, Insert 1, Rollback])
   \<and> runMigrations registry_writing_ahead fresh_database
     = (Some (Thrown ''boom''),
        \<lparr>foreign_keys = True, migrations_table = Some [(2, ''early''), (1, ''one'')],
         schema = []\<rparr>,
        [Begin, Invoke 1, Insert 1, Commit, Begin, Invoke 2, Rollback])"
  by code_simp

text \<open>
  C2, as the code has it. The claim is made for every run over a sorted registry. It fails
  when the registry has a version that is not positive (on an empty table such a migration
  is never pending), when an action writes the bookkeeping table, and when the table did
  not hold a prefix-closed set of versions before the run (the counterexample below). What
  holds: the recorded versions are a prefix-closed subset of the versions of the registry
  after every run, whether it ends with or without an error, when the registry is sorted
  by version, its versions are positive, its actions leave the bookkeeping table alone, and
  the recorded versions were such a subset before the run, as those of an empty table are.
  The versions of the registry are taken as the numbers they are to JavaScript.
\<close>

theorem runMigrations_keeps_prefix_closed:
  assumes srt: "sorted (map versionNumber migrations)"
    and pos: "\<forall>m\<in>set migrations. 0 < versionNumber m"
    and frame: "\<forall>m\<in>set migrations. preserves_bookkeeping (up m)"
    and inv: "prefix_closed (map versionNumber migrations) (recorded_versions d)"
  shows "prefix_closed (map versionNumber migrations)
           (recorded_versions (fst (snd (runMigrations migrations d))))"
proof -
  let ?c = "getCurrentVersion d"
  let ?d0 = "initMigrationsTable (pragma_foreign_keys_on d)"
  let ?done = "filter (\<lambda>m. versionNumber m \<le> ?c) migrations"
  let ?pending = "pendingMigrations migrations ?c"
  have split: "migrations = ?done @ ?pending"
    unfolding pendingMigrations_def using srt by (rule sorted_filter_split)
  have "\<forall>m\<in>set ?pending. preserves_bookkeeping (up m)"
    using frame by (auto simp: pendingMigrations_def)
  from run_pending_recorded [OF this, of ?d0] obtain k where k: "k \<le> length ?pending"
    "recorded_versions (fst (snd (run_pending ?pending ?d0)))
       = recorded_versions d @ map versionNumber (take k ?pending)" by auto
  have "set (recorded_versions d) = {u \<in> set (map versionNumber migrations). u \<le> ?c}"
    using pos inv by (intro recorded_up_to_current) (auto simp: versionNumber_fixed)
  also have "\<dots> = set (map versionNumber ?done)" by auto
  finally have "set (recorded_versions (fst (snd (runMigrations migrations d))))
      = set (map versionNumber ?done @ map versionNumber (take k ?pending))"
    by (simp add: runMigrations_eq_run_pending k(2))
  moreover have "map versionNumber migrations
      = (map versionNumber ?done @ map versionNumber (take k ?pending))
        @ map versionNumber (drop k ?pending)"
  proof -
    have "map versionNumber migrations
        = map versionNumber (?done @ take k ?pending @ drop k ?pending)"
      using split by simp
    then show ?thesis by (simp only: map_append append_assoc)
  qed
  ultimately show ?thesis
    using srt prefix_closed_sorted_prefix by metis
qed

text \<open>
  The theorem at the registry whose second action fails, on a fresh database: the run is
  aborted and leaves version 1 recorded.
\<close>

theorem runMigrations_keeps_prefix_closed_witness:
  "sorted (map versionNumber registry_failing_second)
   \<and> list_all (\<lambda>m. 0 < versionNumber m) registry_failing_second
   \<and> list_all (\<lambda>m. preserves_bookkeeping (up m)) registry_failing_second
   \<and> prefix_closed (map versionNumber registry_failing_second)
        (recorded_versions fresh_database)
   \<and> recorded_versions (fst (snd (runMigrations registry_failing_second fresh_database))) = [1]
   \<and> prefix_closed (map versionNumber registry_failing_second)
        (recorded_versions (fst (snd (runMigrations registry_failing_second fresh_database))))"
proof -
  have num: "map versionNumber registry_failing_second = [1, 2, 3]"
    by (simp add: registry_failing_second_def versionNumber_def js_number_safe)
  have srt: "sorted (map versionNumber registry_failing_second)"
    by (simp add: num)
  have "\<forall>u\<in>set (map versionNumber registry_failing_second). 0 < u"
    by (simp add: num)
  then have pos: "\<forall>m\<in>set registry_failing_second. 0 < versionNumber m" by simp
  have frame: "\<forall>m\<in>set registry_failing_second. preserves_bookkeeping (up m)"
    by (simp add: registry_failing_second_def preserves_bookkeeping_create_table
        preserves_bookkeeping_create_table_then_throw)
  have inv: "prefix_closed (map versionNumber registry_failing_second)
      (recorded_versions fresh_database)"
    by (simp add: prefix_closed_def recorded_versions_def bookkeeping_rows_def
        fresh_database_def)
  have run: "recorded_versions (fst (snd (runMigrations registry_failing_second
      fresh_database))) = [1]"
    by code_simp
  from srt pos frame inv run runMigrations_keeps_prefix_closed [OF srt pos frame inv]
  show ?thesis
    by (simp add: list_all_iff)
qed

text \<open>
  The claim C2 as it is stated fails at three runs over a sorted registry. With the
  versions 0 and 1 on a fresh database: version 0 is never pending, the run records
  version 1 alone, and the smaller version 0 is missing. With an action that writes a row
  for version 3: the table records a version that the registry does not have. From a table
  that holds version 3 alone, under the registry with the versions 1 and 3: nothing is
  pending, and version 1 stays missing.
\<close>

theorem runMigrations_breaks_prefix_closed:
  "sorted (map versionNumber registry_zero_first)
   \<and> recorded_versions (fst (snd (runMigrations registry_zero_first fresh_database))) = [1]
   \<and> \<not> prefix_closed (map versionNumber registry_zero_first)
         (recorded_versions (fst (snd (runMigrations registry_zero_first fresh_database))))
   \<and> sorted (map versionNumber registry_writing_table)
   \<and> recorded_versions (fst (snd (runMigrations registry_writing_table fresh_database)))
       = [3, 1]
   \<and> \<not> prefix_closed (map versionNumber registry_writing_table)
         (recorded_versions (fst (snd (runMigrations registry_writing_table fresh_database))))
   \<and> sorted (map versionNumber registry_succeeding)
   \<and> recorded_versions (fst (snd (runMigrations registry_succeeding
         \<lparr>foreign_keys = True, migrations_table = Some [(3, ''three'')], schema = [''c'']\<rparr>)))
       = [3]
   \<and> \<not> prefix_closed (map versionNumber registry_succeeding)
         (recorded_versions (fst (snd (runMigrations registry_succeeding
           \<lparr>foreign_keys = True, migrations_table = Some [(3, ''three'')],
            schema = [''c'']\<rparr>))))"
proof -
  let ?d = "\<lparr>foreign_keys = True, migrations_table = Some [(3, ''three'')],
      schema = [''c'']\<rparr> :: string list database"
  have n1: "map versionNumber registry_zero_first = [0, 1]"
    by (simp add: registry_zero_first_def versionNumber_def js_number_safe)
  have n2: "map versionNumber registry_writing_table = [1]"
    by (simp add: registry_writing_table_def versionNumber_def js_number_safe)
  have n3: "map versionNumber registry_succeeding = [1, 3]"
    by (simp add: registry_succeeding_def versionNumber_def js_number_safe)
  have r1: "recorded_versions (fst (snd (runMigrations registry_zero_first fresh_database)))
      = [1]" by code_simp
  have r2: "recorded_versions (fst (snd (runMigrations registry_writing_table fresh_database)))
      = [3, 1]" by code_simp
  have r3: "recorded_versions (fst (snd (runMigrations registry_succeeding ?d))) = [3]"
    by code_simp
  show ?thesis
    unfolding r1 r2 r3 n1 n2 n3 by (simp add: prefix_closed_def)
qed

text \<open>
  C3, as the code has it. The claim is that of two runs in a row on a fresh database, the
  first invokes every action once and the second none. A run stops at the first action
  that throws, so when an action throws in the first run, the later actions are not
  invoked in that run, and the second run invokes the failed action again (the
  counterexample below). What holds: for a registry sorted by
  version with positive versions and a database with no recorded version, when the first
  run returns without error, it has invoked the action of every migration exactly once, in
  the order of the registry; the second run, on the database the first one left, returns
  without error and with no event (no action is invoked); and \<^verbatim>\<open>getCurrentVersion\<close>
  gives the same value before and after the second run.
\<close>

theorem runMigrations_twice_after_success:
  assumes srt: "sorted (map version migrations)"
    and pos: "\<forall>m\<in>set migrations. 0 < version m"
    and fresh: "bookkeeping_rows d = []"
    and ok: "runMigrations migrations d = (None, d', evs)"
  shows "invoked evs = map version migrations
    \<and> runMigrations migrations d' = (None, initMigrationsTable (pragma_foreign_keys_on d'), [])
    \<and> getCurrentVersion (fst (snd (runMigrations migrations d'))) = getCurrentVersion d'"
proof -
  let ?d0 = "initMigrationsTable (pragma_foreign_keys_on d)"
  have "getCurrentVersion d = 0"
    using fresh by (simp add: getCurrentVersion_eq recorded_versions_def)
  then have "pendingMigrations migrations (getCurrentVersion d) = migrations"
    using pos by (simp add: pendingMigrations_def filter_id_conv versionNumber_def js_number_pos)
  with ok have run: "run_pending migrations ?d0 = (None, d', evs)"
    by (simp add: runMigrations_eq_run_pending)
  then have inv: "invoked evs = map version migrations"
    by (rule run_pending_success_invoked)
  have "\<forall>m\<in>set migrations. versionNumber m \<le> getCurrentVersion d'"
  proof (cases migrations rule: rev_cases)
    case Nil
    then show ?thesis by simp
  next
    case (snoc ms m)
    with run have rec: "versionNumber m \<in> set (recorded_versions d')"
      by (auto dest: run_pending_last_recorded)
    then have "recorded_versions d' \<noteq> []" by auto
    then have "getCurrentVersion d' = js_number (Max (set (recorded_versions d')))"
      by (simp add: getCurrentVersion_eq)
    moreover have "js_number (versionNumber m) \<le> js_number (Max (set (recorded_versions d')))"
      using rec by (intro js_number_mono) simp
    ultimately have "versionNumber m \<le> getCurrentVersion d'"
      by (simp add: versionNumber_fixed)
    moreover have "\<forall>m'\<in>set migrations. versionNumber m' \<le> versionNumber m"
      using srt snoc by (auto simp: sorted_append versionNumber_def js_number_mono)
    ultimately show ?thesis by fastforce
  qed
  then have "runMigrations migrations d' =
      (None, initMigrationsTable (pragma_foreign_keys_on d'), [])"
    by (rule runMigrations_no_pending_number)
  with inv show ?thesis by simp
qed

text \<open>
  The theorem at the registry with the versions 1 and 3, on a fresh database.
\<close>

theorem runMigrations_twice_after_success_witness:
  "sorted (map version registry_succeeding)
   \<and> list_all (\<lambda>m. 0 < version m) registry_succeeding
   \<and> bookkeeping_rows fresh_database = []
   \<and> runMigrations registry_succeeding fresh_database
     = (None,
        \<lparr>foreign_keys = True, migrations_table = Some [(1, ''one''), (3, ''three'')],
         schema = [''a'', ''c'']\<rparr>,
        [Begin, Invoke 1, Insert 1, Commit, Begin, Invoke 3, Insert 3, Commit])
   \<and> invoked [Begin, Invoke 1, Insert 1, Commit, Begin, Invoke 3, Insert 3, Commit]
     = map version registry_succeeding
   \<and> runMigrations registry_succeeding
        \<lparr>foreign_keys = True, migrations_table = Some [(1, ''one''), (3, ''three'')],
         schema = [''a'', ''c'']\<rparr>
     = (None,
        \<lparr>foreign_keys = True, migrations_table = Some [(1, ''one''), (3, ''three'')],
         schema = [''a'', ''c'']\<rparr>, [])
   \<and> getCurrentVersion (fst (snd (runMigrations registry_succeeding
        \<lparr>foreign_keys = True, migrations_table = Some [(1, ''one''), (3, ''three'')],
         schema = [''a'', ''c'']\<rparr>))) = 3
   \<and> getCurrentVersion
        \<lparr>foreign_keys = True, migrations_table = Some [(1, ''one''), (3, ''three'')],
         schema = [''a'', ''c'']\<rparr> = 3"
proof -
  let ?d' = "\<lparr>foreign_keys = True, migrations_table = Some [(1, ''one''), (3, ''three'')],
         schema = [''a'', ''c'']\<rparr> :: string list database"
  let ?evs = "[Begin, Invoke 1, Insert 1, Commit, Begin, Invoke 3, Insert 3, Commit]"
  have strict: "sorted (map version registry_succeeding)"
    by (simp add: registry_succeeding_def)
  have pos: "\<forall>m\<in>set registry_succeeding. 0 < version m"
    by (simp add: registry_succeeding_def)
  have fresh: "bookkeeping_rows fresh_database = []"
    by (simp add: bookkeeping_rows_def fresh_database_def)
  have ok: "runMigrations registry_succeeding fresh_database = (None, ?d', ?evs)"
    by code_simp
  have cur: "getCurrentVersion ?d' = 3"
    by code_simp
  have ev: "initMigrationsTable (pragma_foreign_keys_on ?d') = ?d'"
    by (simp add: initMigrationsTable_def pragma_foreign_keys_on_def)
  note inst = runMigrations_twice_after_success [OF strict pos fresh ok]
  from inst have a: "invoked ?evs = map version registry_succeeding" by simp
  from inst ev have b: "runMigrations registry_succeeding ?d' = (None, ?d', [])" by simp
  from inst cur have c: "getCurrentVersion (fst (snd (runMigrations registry_succeeding ?d'))) = 3"
    by simp
  from pos have pos': "list_all (\<lambda>m. 0 < version m) registry_succeeding"
    by (simp add: list_all_iff)
  from strict pos' fresh ok a b c cur show ?thesis by (intro conjI)
qed

text \<open>
  The claim C3 as it is stated fails at a registry of one migration whose action throws,
  on a fresh database: the first run invokes the action and is rolled back, and the second
  run, on the database the first one left, invokes the action again.
\<close>

theorem runMigrations_twice_after_failure:
  "sorted (map version registry_failing)
   \<and> bookkeeping_rows fresh_database = []
   \<and> runMigrations registry_failing fresh_database
     = (Some (Thrown ''boom''),
        \<lparr>foreign_keys = True, migrations_table = Some [], schema = []\<rparr>,
        [Begin, Invoke 1, Rollback])
   \<and> runMigrations registry_failing
        \<lparr>foreign_keys = True, migrations_table = Some [], schema = []\<rparr>
     = (Some (Thrown ''boom''),
        \<lparr>foreign_keys = True, migrations_table = Some [], schema = []\<rparr>,
        [Begin, Invoke 1, Rollback])
   \<and> invoked [Begin, Invoke 1, Rollback] = [1]"
  by code_simp

text \<open>
  C5. The two \<^verbatim>\<open>ALTER TABLE ... ADD COLUMN\<close> steps are to catch the failure "the column
  already exists" and no other: the comment in each \<^verbatim>\<open>catch\<close> and the message it logs
  say so, and the claim with them, which also says that every other error of those
  statements is passed on. The code does not do that: the \<^verbatim>\<open>catch\<close> does not look at
  the error. In a database without the table \<^verbatim>\<open>settings\<close>, the statement
  \<^verbatim>\<open>ALTER TABLE settings ADD COLUMN language\<close> throws "no such table", which is not the
  failure for a column that exists already; the second migration catches it, goes on and
  returns without error, and a run of the registry records the migration as applied, the
  column never added.
\<close>

theorem add_column_swallows_no_such_table:
  "example_exec AlterSettingsAddLanguage fresh_database
     = (Some (SqliteError ''no such table: settings''), fresh_database)
   \<and> migration_002_add_notification_system example_exec fresh_database
     = (None, \<lparr>foreign_keys = False, migrations_table = None,
         schema = [''notification_settings'', ''notification_channels'',
           ''notification_history'', ''notification_templates'']\<rparr>)
   \<and> runMigrations registry_notification fresh_database
     = (None, \<lparr>foreign_keys = True,
         migrations_table = Some [(2, ''add_notification_system'')],
         schema = [''notification_settings'', ''notification_channels'',
           ''notification_history'', ''notification_templates'']\<rparr>,
        [Begin, Invoke 2, Insert 2, Commit])"
  by code_simp

end
